theory Spec2Isabelle
  imports Main "HOL-Library.Multiset"
begin

section \<open>Values, responses and handlers\<close>

text \<open>
  The body of a response: absent (\<open>new Response(null, ...)\<close>), a string, the pairs
  of a \<open>URLSearchParams\<close>, or a \<open>ReadableStream\<close>, given by the chunks it delivers.
\<close>

datatype body = BNull | BText string | BParams "(string \<times> string) list" | BStream "string list"

record response =
  status :: nat
  statusText :: string
  headers :: "(string \<times> string) list"
  rbody :: body

text \<open>
  The JavaScript values that reach the dispatcher. \<open>JErr message props\<close> is an error
  object: its message and its own enumerable properties (the ones the spread
  \<open>{...err}\<close> copies). \<open>JPromise v\<close> is a promise that nobody awaited, resolving to
  \<open>v\<close>. \<open>JGen g\<close> is a generator object.
\<close>

datatype gen = GYield jsval gen | GReturn jsval | GThrow jsval
and jsval =
    JUndefined
  | JNull
  | JBool bool
  | JNum int
  | JStr string
  | JResponse response
  | JErr string "(string \<times> jsval) list"
  | JObject "(string \<times> jsval) list"
  | JArray "jsval list"
  | JParams "(string \<times> string) list"
  | JPromise jsval
  | JGen gen

text \<open>What a call of a user function does: it returns a value or throws one.\<close>

datatype outcome = Returns jsval | Throws jsval

fun isResponse :: "jsval \<Rightarrow> bool" where
  "isResponse (JResponse r) = True"
| "isResponse v = False"

fun isAsyncIterable :: "jsval \<Rightarrow> bool" where
  "isAsyncIterable (JGen g) = True"
| "isAsyncIterable v = False"

text \<open>The response, or the generator, that a value is, if it is one.\<close>

fun as_response :: "jsval \<Rightarrow> response option" where
  "as_response (JResponse r) = Some r"
| "as_response v = None"

fun as_gen :: "jsval \<Rightarrow> gen option" where
  "as_gen (JGen g) = Some g"
| "as_gen v = None"

text \<open>JavaScript truthiness, as \<open>!result\<close> and \<open>x || y\<close> test it.\<close>

fun truthy :: "jsval \<Rightarrow> bool" where
  "truthy JUndefined = False"
| "truthy JNull = False"
| "truthy (JBool b) = b"
| "truthy (JNum n) = (n \<noteq> 0)"
| "truthy (JStr s) = (s \<noteq> [])"
| "truthy v = True"

text \<open>
  A middleware \<open>(context, next) => ...\<close> is a tree of interactions: it returns, it
  throws, or it awaits \<open>next()\<close> and goes on with the response that call gave.
\<close>

datatype mw = MwReturn jsval | MwThrow jsval | MwNext "response \<Rightarrow> mw"

text \<open>An error handler \<open>({error, request}) => ...\<close>, taken to return a value.\<close>

type_synonym on_error = "jsval \<Rightarrow> jsval"

section \<open>The application tree\<close>

text \<open>
  One issue of a validator, \<open>{path, message}\<close>, and its result
  \<open>{issues?, value?}\<close>.
\<close>

record issue =
  ipath :: "string list"
  imessage :: string

record vresult =
  issues :: "issue list option"
  vvalue :: "jsval option"

type_synonym validation_function = "jsval \<Rightarrow> vresult"

record ctx =
  c_path :: string
  c_query :: jsval
  c_params :: jsval
  c_state :: jsval

text \<open>A middleware function, given the context it is called with.\<close>

type_synonym middleware = "ctx \<Rightarrow> mw"

text \<open>\<open>InternalRoute\<close>: the handler is a function of the request context.\<close>

record internal_route =
  r_method :: string
  r_path :: string
  r_type :: string
  r_handler :: "ctx \<Rightarrow> outcome"
  validateBody :: "validation_function option"
  validateQuery :: "validation_function option"
  validateParams :: "validation_function option"

text \<open>
  What \<open>router.find(path)\<close> gives: the store, a table from method to route, and the
  parameters of the path.
\<close>

record medley_route =
  store :: "string \<Rightarrow> internal_route option"
  params :: jsval

text \<open>
  A \<open>Spiceflow\<close> object. \<open>app_id\<close> is the \<open>id\<close> taken from \<open>globalIndex\<close> at
  construction, which tells objects apart; \<open>scoped\<close> is \<open>None\<close> when the constructor
  got no \<open>scoped\<close> option (then \<open>this.scoped\<close> is \<open>undefined\<close>); \<open>router\<close> is the
  \<open>find\<close> of the path matcher.
\<close>

datatype app = App
  (app_id: nat)
  (prefix: "string option")
  (scoped: "bool option")
  (middlewares: "middleware list")
  (onErrorHandlers: "on_error list")
  (router: "string \<Rightarrow> medley_route option")
  (defaultState: jsval)
  (childrenApps: "app list")

text \<open>
  \<open>bfsFind(tree, onNode)\<close>: the queue loop, with the state \<open>s\<close> that the callback
  reads and writes (\<open>parentMap\<close>, \<open>foundApp\<close>) passed along. The loop stops at the
  first node for which the callback returns a result.
\<close>

function bfsFind_queue :: "('s \<Rightarrow> app \<Rightarrow> 'a option \<times> 's) \<Rightarrow> 's \<Rightarrow> app list \<Rightarrow> 'a option \<times> 's" where
  "bfsFind_queue onNode s [] = (None, s)"
| "bfsFind_queue onNode s (node # queue) =
     (case onNode s node of
        (Some result, s') \<Rightarrow> (Some result, s')
      | (None, s') \<Rightarrow> bfsFind_queue onNode s' (queue @ childrenApps node))"
  by pat_completeness auto
termination
  apply (relation "measure (\<lambda>(onNode, s, queue). sum_list (map size queue))")
   apply simp
  subgoal for onNode s node queue x y
    by (cases node) (simp add: size_list_conv_sum_list)
  done

definition bfsFind :: "app \<Rightarrow> ('s \<Rightarrow> app \<Rightarrow> 'a option \<times> 's) \<Rightarrow> 's \<Rightarrow> 'a option \<times> 's" where
  "bfsFind tree onNode s = bfsFind_queue onNode s [tree]"

text \<open>\<open>bfs(tree)\<close>: every node of the tree, level by level.\<close>

function bfs_queue :: "app list \<Rightarrow> app list \<Rightarrow> app list" where
  "bfs_queue [] nodes = nodes"
| "bfs_queue (node # queue) nodes = bfs_queue (queue @ childrenApps node) (nodes @ [node])"
  by pat_completeness auto
termination
  apply (relation "measure (\<lambda>(queue, nodes). sum_list (map size queue))")
   apply simp
  subgoal for node queue nodes
    by (cases node) (simp add: size_list_conv_sum_list)
  done

definition bfs :: "app \<Rightarrow> app list" where
  "bfs tree = bfs_queue [tree] []"

text \<open>
  \<open>xs.includes(app)\<close> compares object identities; an object is known by its \<open>id\<close>.
\<close>

definition includes_app :: "app list \<Rightarrow> app \<Rightarrow> bool" where
  "includes_app xs a = (app_id a \<in> set (map app_id xs))"

text \<open>
  \<open>getAppAndParents\<close>. The callback given to \<open>bfsFind\<close> records the parent of every
  child in \<open>parentMap\<close> and returns nothing; the \<open>while (current)\<close> loop then climbs
  from \<open>currentApp\<close>, putting each node in front of \<open>parents\<close>. The loop has no bound
  of its own, so \<open>None\<close> stands for a climb that never ends. Inside \<open>handle\<close> the
  root \<open>this.topLevelApp || this\<close> is \<open>this\<close>: \<open>match\<close> has set
  \<open>this.topLevelApp = this\<close> in its first callback before anything reads it.
\<close>

definition setParents :: "(nat \<rightharpoonup> app) \<Rightarrow> app \<Rightarrow> unit option \<times> (nat \<rightharpoonup> app)" where
  "setParents parentMap node =
     (None, fold (\<lambda>child m. m(app_id child \<mapsto> node)) (childrenApps node) parentMap)"

partial_function (option) climb :: "(nat \<rightharpoonup> app) \<Rightarrow> app option \<Rightarrow> app list \<Rightarrow> app list option" where
  "climb parentMap current parents =
     (case current of
        None \<Rightarrow> Some parents
      | Some c \<Rightarrow> climb parentMap (parentMap (app_id c)) (c # parents))"

declare climb.simps [code]

definition getAppAndParents :: "app \<Rightarrow> app option \<Rightarrow> app list option" where
  "getAppAndParents root currentApp =
     (if childrenApps root = [] then Some [root]
      else climb (snd (bfsFind root setParents Map.empty)) currentApp [])"

text \<open>\<open>getAppsInScope\<close>: the nodes of \<open>bfs(root)\<close> that are unscoped or on the climb.\<close>

definition getAppsInScope :: "app \<Rightarrow> app option \<Rightarrow> app list option" where
  "getAppsInScope root currentApp =
     (if childrenApps root = [] then Some [root]
      else case getAppAndParents root currentApp of
        None \<Rightarrow> None
      | Some withParents \<Rightarrow>
          (let wantedOrder = bfs root;
               scopeFalseApps = filter (\<lambda>x. scoped x = Some False) wantedOrder
           in Some (filter (\<lambda>a. includes_app scopeFalseApps a \<or> includes_app withParents a)
                      wantedOrder)))"

text \<open>
  The ancestor chain as the specification words it: the list of nodes from the root down
  to the node with the given id, both included.
\<close>

fun ancestorsOf :: "app \<Rightarrow> nat \<Rightarrow> app list option"
  and ancestorsOf_children :: "app list \<Rightarrow> nat \<Rightarrow> app list option" where
  "ancestorsOf (App i p sc ms es r d cs) k =
     (if i = k then Some [App i p sc ms es r d cs]
      else map_option (Cons (App i p sc ms es r d cs)) (ancestorsOf_children cs k))"
| "ancestorsOf_children [] k = None"
| "ancestorsOf_children (c # cs) k =
     (case ancestorsOf c k of Some path \<Rightarrow> Some path | None \<Rightarrow> ancestorsOf_children cs k)"

text \<open>Every node of a tree, the root first.\<close>

fun nodes :: "app \<Rightarrow> app list" where
  "nodes (App i p sc ms es r d cs) = App i p sc ms es r d cs # concat (map nodes cs)"

text \<open>
  For the proofs: the breadth-first order without the accumulator, the (child id, parent)
  pairs that \<open>setParents\<close> writes, and lists in which each node is a child of the one
  before it.
\<close>

function bfs_list :: "app list \<Rightarrow> app list" where
  "bfs_list [] = []"
| "bfs_list (node # queue) = node # bfs_list (queue @ childrenApps node)"
  by pat_completeness auto
termination
  apply (relation "measure (\<lambda>queue. sum_list (map size queue))")
   apply simp
  subgoal for node queue
    by (cases node) (simp add: size_list_conv_sum_list)
  done

definition parentPairs :: "app list \<Rightarrow> (nat \<times> app) list" where
  "parentPairs ns = concat (map (\<lambda>n. map (\<lambda>c. (app_id c, n)) (childrenApps n)) ns)"

fun is_chain :: "app list \<Rightarrow> bool" where
  "is_chain (x # y # zs) = (y \<in> set (childrenApps x) \<and> is_chain (y # zs))"
| "is_chain zs = True"

text \<open>A tree to try the scope on: \<open>tree_leaf\<close> sits below a scoped node, beside an unscoped one.\<close>

definition mk_app :: "nat \<Rightarrow> bool option \<Rightarrow> app list \<Rightarrow> app" where
  "mk_app i s cs = App i None s [] [] (\<lambda>_. None) JUndefined cs"

definition tree_leaf :: app where
  "tree_leaf = mk_app 5 None []"

definition tree_root :: app where
  "tree_root = mk_app 0 None
     [mk_app 1 None [mk_app 3 (Some False) [], mk_app 4 None []],
      mk_app 2 (Some True) [tree_leaf]]"

section \<open>Strings and objects\<close>

text \<open>\<open>s.startsWith(p)\<close>, \<open>s.includes(p)\<close>, \<open>s.replace(p, "")\<close> for a string \<open>p\<close>
  (the first occurrence only), \<open>s.replace(/\/$/, "")\<close> and \<open>xs.join(sep)\<close>.\<close>

definition startsWith :: "string \<Rightarrow> string \<Rightarrow> bool" where
  "startsWith s p = (take (length p) s = p)"

fun includes_str :: "string \<Rightarrow> string \<Rightarrow> bool" where
  "includes_str [] p = (p = [])"
| "includes_str (c # cs) p = (startsWith (c # cs) p \<or> includes_str cs p)"

fun replace_first :: "string \<Rightarrow> string \<Rightarrow> string" where
  "replace_first [] p = []"
| "replace_first (c # cs) p =
     (if startsWith (c # cs) p then drop (length p) (c # cs) else c # replace_first cs p)"

definition strip_slash :: "string \<Rightarrow> string" where
  "strip_slash s = (if s \<noteq> [] \<and> last s = CHR ''/'' then butlast s else s)"

fun join :: "string \<Rightarrow> string list \<Rightarrow> string" where
  "join sep [] = []"
| "join sep [x] = x"
| "join sep (x # y # zs) = x @ sep @ join sep (y # zs)"

text \<open>\<open>a || b\<close> on strings: the empty string is falsy.\<close>

definition str_or :: "string \<Rightarrow> string \<Rightarrow> string" where
  "str_or a b = (if a \<noteq> [] then a else b)"

text \<open>The line feed, and the two characters backslash and n of the source's \<open>"\\n"\<close>.\<close>

definition LF :: string where
  "LF = [CHR 0x0A]"

definition backslash_n :: string where
  "backslash_n = [CHR 0x5C, CHR ''n'']"

text \<open>Decimal digits of an index, for the keys of a spread string.\<close>

fun dec :: "nat \<Rightarrow> string" where
  "dec n = (if n < 10 then [char_of (48 + n)] else dec (n div 10) @ [char_of (48 + n mod 10)])"

text \<open>
  \<open>await v\<close> for a value that may be a (resolved) promise; \<open>{...v}\<close>, the own
  enumerable properties of \<open>v\<close>; \<open>v?.key\<close>; and \<open>{...obj, key: x}\<close>, which keeps the
  place of a key that is already there.
\<close>

fun await :: "jsval \<Rightarrow> jsval" where
  "await (JPromise v) = await v"
| "await v = v"

fun spread :: "jsval \<Rightarrow> (string \<times> jsval) list" where
  "spread (JErr m props) = props"
| "spread (JObject props) = props"
| "spread (JStr s) = map (\<lambda>(i, c). (dec i, JStr [c])) (zip [0 ..< length s] s)"
| "spread (JArray xs) = map (\<lambda>(i, x). (dec i, x)) (zip [0 ..< length xs] xs)"
| "spread v = []"

fun get_prop :: "jsval \<Rightarrow> string \<Rightarrow> jsval" where
  "get_prop (JErr m props) key =
     (if key = ''message'' then JStr m
      else if key = ''name'' then (case map_of props key of Some v \<Rightarrow> v | None \<Rightarrow> JStr ''Error'')
      else (case map_of props key of Some v \<Rightarrow> v | None \<Rightarrow> JUndefined))"
| "get_prop (JObject props) key = (case map_of props key of Some v \<Rightarrow> v | None \<Rightarrow> JUndefined)"
| "get_prop v key = JUndefined"

definition set_prop :: "(string \<times> jsval) list \<Rightarrow> string \<Rightarrow> jsval \<Rightarrow> (string \<times> jsval) list" where
  "set_prop props key x =
     (if key \<in> set (map fst props) then map (\<lambda>(k, v). if k = key then (k, x) else (k, v)) props
      else props @ [(key, x)])"

text \<open>\<open>a ?? b\<close> and \<open>a || b\<close> on values.\<close>

definition nullish_or :: "jsval \<Rightarrow> jsval \<Rightarrow> jsval" where
  "nullish_or a b = (if a = JUndefined \<or> a = JNull then b else a)"

definition js_or :: "jsval \<Rightarrow> jsval \<Rightarrow> jsval" where
  "js_or a b = (if truthy a then a else b)"

text \<open>
  \<open>new Response(body, {status, headers})\<close>. The status is taken as the number it is;
  the range check of the platform's constructor is not part of the embedding.
\<close>

definition new_Response :: "body \<Rightarrow> nat \<Rightarrow> (string \<times> string) list \<Rightarrow> response" where
  "new_Response b st hs = \<lparr>status = st, statusText = [], headers = hs, rbody = b\<rparr>"

section \<open>Errors, validation and conversion to a response\<close>

text \<open>
  What one \<open>handle\<close> call does that can be observed from outside its return value:
  the middleware at a position of the chain was called, the route handler was called, the
  error handler at a position of the list was called, \<open>console.error\<close> was called.
\<close>

datatype event = EvMiddleware nat | EvHandler | EvOnError nat | EvLog jsval

text \<open>
  \<open>superjsonSerialize(value, flag)\<close> is not among the sources; it is a parameter
  \<open>ser\<close> of everything that serialises, the flag being \<open>None\<close> where the call gives
  one argument.
\<close>

type_synonym serializer = "jsval \<Rightarrow> bool option \<Rightarrow> string"

text \<open>
  \<open>runErrorHandlers\<close>: with no handler the error is logged; otherwise each handler is
  called in turn and the loop returns the first result that is a response as it stands
  (the result is not awaited before \<open>isResponse\<close> looks at it).
\<close>

fun errHandlers_loop :: "on_error list \<Rightarrow> nat \<Rightarrow> jsval \<Rightarrow> event list \<Rightarrow> jsval \<times> event list" where
  "errHandlers_loop [] i err tr = (JUndefined, tr)"
| "errHandlers_loop (errHandler # hs) i err tr =
     (let res = errHandler err; tr' = tr @ [EvOnError i]
      in if isResponse res then (res, tr') else errHandlers_loop hs (Suc i) err tr')"

definition runErrorHandlers :: "on_error list \<Rightarrow> jsval \<Rightarrow> event list \<Rightarrow> jsval \<times> event list" where
  "runErrorHandlers handlers err tr =
     (if length handlers = 0 then (JUndefined, tr @ [EvLog err])
      else errHandlers_loop handlers 0 err tr)"

text \<open>
  \<open>err?.status ?? 500\<close> as the status of the default response. A status that is not a
  number is outside the embedding (it is read as 500).
\<close>

definition error_status :: "jsval \<Rightarrow> nat" where
  "error_status err =
     (case nullish_or (get_prop err ''status'') (JNum 500) of JNum n \<Rightarrow> nat n | _ \<Rightarrow> 500)"

definition default_error_response :: "serializer \<Rightarrow> jsval \<Rightarrow> response" where
  "default_error_response ser err =
     new_Response
       (BText (ser (JObject (set_prop (spread err) ''message''
                  (js_or (get_prop err ''message'') (JStr ''Internal Server Error'')))) None))
       (error_status err)
       [(''content-type'', ''application/json'')]"

definition getResForError :: "serializer \<Rightarrow> on_error list \<Rightarrow> jsval \<Rightarrow> event list \<Rightarrow> response \<times> event list" where
  "getResForError ser handlers err tr =
     (case as_response err of
        Some r \<Rightarrow> (r, tr)
      | None \<Rightarrow>
        (let (res, tr') = runErrorHandlers handlers err tr
         in case as_response res of
              Some r \<Rightarrow> (r, tr')
            | None \<Rightarrow> (default_error_response ser err, tr')))"

text \<open>
  Modelled from the spec: \<open>ValidationError\<close> of \<open>./error.ts\<close>, which is not among the
  sources. The specification gives its serialised form
  \<open>{"code":"VALIDATION","status":422,"message":...}\<close>: an error with the properties
  \<open>code\<close> and \<open>status\<close>.
\<close>

definition ValidationError :: "string \<Rightarrow> jsval" where
  "ValidationError message = JErr message [(''code'', JStr ''VALIDATION''), (''status'', JNum 422)]"

text \<open>One issue as a line of the message: the path joined by dots and a colon, if
  there is a path, then the message of the issue.\<close>

definition issue_message :: "issue \<Rightarrow> string" where
  "issue_message i =
     (if length (ipath i) > 0 then join ''.'' (ipath i) @ '': '' else []) @ imessage i"

text \<open>The rendering of a list of issues in the message of the \<open>ValidationError\<close>.\<close>

definition issues_message :: "issue list \<Rightarrow> string" where
  "issues_message is = str_or (join backslash_n (map issue_message is)) ''Validation failed''"

text \<open>\<open>runValidation\<close>: \<open>Inl\<close> is the error thrown.\<close>

definition runValidation :: "jsval \<Rightarrow> validation_function option \<Rightarrow> jsval + jsval" where
  "runValidation v validate =
     (case validate of
        None \<Rightarrow> Inr v
      | Some f \<Rightarrow>
        (let result = f v
         in case issues result of
              Some (i # is) \<Rightarrow>
                Inl (ValidationError (issues_message (i # is)))
            | _ \<Rightarrow> (case vvalue result of Some x \<Rightarrow> Inr x | None \<Rightarrow> Inr v)))"


text \<open>
  \<open>result?.constructor?.name || typeof result\<close>, for the messages of the errors that
  \<open>turnHandlerResultIntoResponse\<close> throws.
\<close>

fun constructor_name :: "jsval \<Rightarrow> string" where
  "constructor_name JUndefined = ''undefined''"
| "constructor_name JNull = ''object''"
| "constructor_name (JBool b) = ''Boolean''"
| "constructor_name (JNum n) = ''Number''"
| "constructor_name (JStr s) = ''String''"
| "constructor_name (JResponse r) = ''Response''"
| "constructor_name (JErr m props) = ''Error''"
| "constructor_name (JObject props) = ''Object''"
| "constructor_name (JArray xs) = ''Array''"
| "constructor_name (JParams ps) = ''URLSearchParams''"
| "constructor_name (JPromise v) = ''Promise''"
| "constructor_name (JGen g) = ''AsyncGenerator''"

text \<open>
  \<open>turnHandlerResultIntoResponse(result, route)\<close>: \<open>Inl\<close> is the \<open>Error\<close> thrown. A
  response with a \<open>URLSearchParams\<close> body carries the pairs in \<open>BParams\<close>.
\<close>

definition turnHandlerResultIntoResponse :: "serializer \<Rightarrow> jsval \<Rightarrow> internal_route \<Rightarrow> jsval + response" where
  "turnHandlerResultIntoResponse ser result0 route =
     (let result = await result0
      in case as_response result of
           Some r \<Rightarrow> Inr r
         | None \<Rightarrow>
           if r_type route \<noteq> [] \<and> includes_str (r_type route) ''multipart/form-data'' then
             Inl (JErr (''Invalid form data returned from route handler '' @ r_path route @
                        '' - expected Response but got '' @ constructor_name result @
                        ''. FormData cannot be returned directly - it must be wrapped in a Response object with the appropriate content-type header.'') [])
           else if r_type route \<noteq> [] \<and> includes_str (r_type route) ''application/x-www-form-urlencoded'' then
             (case result of
                JParams ps \<Rightarrow>
                  Inr (new_Response (BParams ps) 200
                         [(''content-type'', ''application/x-www-form-urlencoded'')])
              | _ \<Rightarrow>
                  Inl (JErr (''Invalid URL encoded data returned from route handler '' @ r_path route @
                             '' - expected URLSearchParams but got '' @ constructor_name result) []))
           else if r_type route \<noteq> [] \<and> includes_str (r_type route) ''text/plain'' then
             (case result of
                JStr s \<Rightarrow> Inr (new_Response (BText s) 200 [(''content-type'', ''text/plain'')])
              | _ \<Rightarrow>
                  Inl (JErr (''Invalid text returned from route handler '' @ r_path route @
                             '' - expected string but got '' @ constructor_name result) []))
           else Inr (new_Response (BText (ser result None)) 200
                       [(''content-type'', ''application/json'')]))"

section \<open>Streaming\<close>

text \<open>One \<open>event: message\<close> frame, and the frames of the values that are neither
  \<open>undefined\<close> nor \<open>null\<close>.\<close>

definition message_frame :: "serializer \<Rightarrow> jsval \<Rightarrow> string" where
  "message_frame ser v = ''event: message'' @ LF @ ''data: '' @ ser v (Some False) @ LF @ LF"

definition frame_if_present :: "serializer \<Rightarrow> jsval \<Rightarrow> string list" where
  "frame_if_present ser v = (if v \<noteq> JUndefined \<and> v \<noteq> JNull then [message_frame ser v] else [])"

text \<open>
  The \<open>for await\<close> loop over the rest of the generator, for a request that is not
  aborted and without the keep-alive frames of the timer: the chunks it enqueues. A throw
  of the generator goes to the error handlers and becomes an \<open>event: error\<close> frame; the
  value the generator returns at the end is dropped.
\<close>

fun stream_chunks :: "serializer \<Rightarrow> on_error list \<Rightarrow> gen \<Rightarrow> event list \<Rightarrow> string list \<times> event list" where
  "stream_chunks ser handlers (GYield chunk g) tr =
     (let (rest, tr') = stream_chunks ser handlers g tr
      in (frame_if_present ser chunk @ rest, tr'))"
| "stream_chunks ser handlers (GReturn v) tr = ([], tr)"
| "stream_chunks ser handlers (GThrow error) tr =
     (let (res, tr') = runErrorHandlers handlers error tr
      in ([''event: error'' @ LF @ ''data: '' @
           ser (JObject (set_prop (spread error) ''message''
                  (js_or (js_or (get_prop error ''message'') (get_prop error ''name''))
                     (JStr ''Error'')))) (Some False) @ LF @ LF], tr'))"

text \<open>
  \<open>handleStream\<close>: the first \<open>generator.next()\<close> is taken before the response is made.
  \<open>Inl\<close> is what that first pull throws.
\<close>

definition handleStream :: "serializer \<Rightarrow> on_error list \<Rightarrow> gen \<Rightarrow> event list \<Rightarrow> (jsval + response) \<times> event list" where
  "handleStream ser handlers generator tr =
     (case generator of
        GThrow e \<Rightarrow> (Inl e, tr)
      | GReturn v \<Rightarrow>
          (Inr (new_Response
                  (BText (''event: message'' @ LF @ ''data: '' @ ser v (Some False) @ LF @ LF @
                          ''event: done'' @ LF @ LF))
                  200
                  [(''Content-Type'', ''text/event-stream''), (''Cache-Control'', ''no-cache'')]), tr)
      | GYield v g \<Rightarrow>
          (let (rest, tr') = stream_chunks ser handlers g tr
           in (Inr (new_Response (BStream (frame_if_present ser v @ rest)) 200
                      [(''transfer-encoding'', ''chunked''),
                       (''content-type'', ''text/event-stream; charset=utf-8'')]), tr')))"

section \<open>Matching\<close>

record match_result =
  m_app :: app
  m_route :: internal_route
  m_params :: jsval

definition notFoundHandler :: "ctx \<Rightarrow> outcome" where
  "notFoundHandler c = Returns (JResponse (new_Response (BText ''Not Found'') 404 []))"

text \<open>A route made on the spot, \<open>{hooks: {}, handler, method, path}\<close>: no type, no validators.\<close>

definition synthesized_route :: "(ctx \<Rightarrow> outcome) \<Rightarrow> string \<Rightarrow> string \<Rightarrow> internal_route" where
  "synthesized_route handler method path =
     \<lparr>r_method = method, r_path = path, r_type = [], r_handler = handler,
      validateBody = None, validateQuery = None, validateParams = None\<rparr>"

text \<open>The handler that \<open>match\<close> wraps around the \<open>GET\<close> route for a \<open>HEAD\<close> request.\<close>

definition head_handler :: "internal_route \<Rightarrow> ctx \<Rightarrow> outcome" where
  "head_handler internalRouteGet c =
     (case r_handler internalRouteGet c of
        Throws e \<Rightarrow> Throws e
      | Returns v \<Rightarrow>
        (case as_response (await v) of
           Some response \<Rightarrow>
             Returns (JResponse \<lparr>status = status response, statusText = statusText response,
                                 headers = headers response, rbody = BText []\<rparr>)
         | None \<Rightarrow> Returns (JResponse (new_Response BNull 200 []))))"

text \<open>
  The prefix of a node inside \<open>match\<close>: the prefixes of \<open>getAppAndParents(app)\<close> joined
  (an \<open>undefined\<close> prefix joins as the empty string), one trailing slash removed.
\<close>

definition prefix_str :: "app \<Rightarrow> string" where
  "prefix_str x = (case prefix x of None \<Rightarrow> [] | Some p \<Rightarrow> p)"

definition joined_prefix :: "app \<Rightarrow> app \<Rightarrow> string option" where
  "joined_prefix root a =
     map_option (\<lambda>parents. strip_slash (concat (map prefix_str parents)))
       (getAppAndParents root (Some a))"

text \<open>
  The callback that \<open>match\<close> gives to \<open>bfsFind\<close>; its state is \<open>foundApp\<close>. A result
  \<open>Some None\<close> stands for a call that does not return (the climb of
  \<open>getAppAndParents\<close>), which ends the search without a result.
\<close>

definition match_onNode :: "app \<Rightarrow> string \<Rightarrow> string \<Rightarrow> app option \<Rightarrow> app \<Rightarrow> match_result option option \<times> app option" where
  "match_onNode root method path foundApp a =
     (case joined_prefix root a of
        None \<Rightarrow> (Some None, foundApp)
      | Some pre \<Rightarrow>
        if pre \<noteq> [] \<and> \<not> startsWith path pre then (None, foundApp)
        else
          (let pathWithoutPrefix =
                 (if pre \<noteq> [] then str_or (replace_first path pre) ''/'' else path)
           in case router a pathWithoutPrefix of
                None \<Rightarrow> (None, Some a)
              | Some medleyRoute \<Rightarrow>
                (case store medleyRoute method of
                   Some internalRoute \<Rightarrow>
                     (Some (Some \<lparr>m_app = a, m_route = internalRoute,
                                   m_params = js_or (params medleyRoute) (JObject [])\<rparr>), foundApp)
                 | None \<Rightarrow>
                   if method = ''HEAD'' then
                     (case store medleyRoute ''GET'' of
                        None \<Rightarrow> (None, foundApp)
                      | Some internalRouteGet \<Rightarrow>
                          (Some (Some \<lparr>m_app = a,
                             m_route = synthesized_route (head_handler internalRouteGet) method path,
                             m_params = params medleyRoute\<rparr>), foundApp))
                   else (None, foundApp))))"

text \<open>\<open>match(method, path)\<close> on the application \<open>root\<close>.\<close>

definition match :: "app \<Rightarrow> string \<Rightarrow> string \<Rightarrow> match_result option" where
  "match root method path0 =
     (let path = str_or (strip_slash path0) ''/''
      in case bfsFind root (match_onNode root method path) None of
           (Some result, foundApp) \<Rightarrow> result
         | (None, foundApp) \<Rightarrow>
             Some \<lparr>m_app = (case foundApp of Some a \<Rightarrow> a | None \<Rightarrow> root),
                   m_route = synthesized_route notFoundHandler method path,
                   m_params = JObject []\<rparr>)"

section \<open>The dispatcher\<close>

text \<open>
  The variables that the closure \<open>next\<close> shares inside one \<open>handle\<close> call: \<open>index\<close>,
  \<open>handlerResponse\<close> and the context (whose \<open>query\<close> and \<open>params\<close> validation
  replaces), with the events so far.
\<close>

record chain =
  index :: nat
  handlerResponse :: "response option"
  cx :: ctx
  trace :: "event list"

text \<open>What \<open>next\<close> reads and never writes.\<close>

record env =
  e_ser :: serializer
  e_middlewares :: "middleware list"
  e_onErrorHandlers :: "on_error list"
  e_route :: internal_route

text \<open>
  Running a middleware: each \<open>await next()\<close> of its body calls \<open>nxt\<close> on the state
  as it is then. \<open>None\<close> is a call of \<open>nxt\<close> that did not return.
\<close>

primrec run_mw :: "mw \<Rightarrow> (chain \<Rightarrow> (response \<times> chain) option) \<Rightarrow> chain \<Rightarrow> (outcome \<times> chain) option" where
  "run_mw (MwReturn v) nxt s = Some (Returns v, s)"
| "run_mw (MwThrow e) nxt s = Some (Throws e, s)"
| "run_mw (MwNext k) nxt s =
     (case nxt s of None \<Rightarrow> None | Some (r, s') \<Rightarrow> run_mw (k r) nxt s')"

text \<open>The \<open>catch\<close> block of \<open>next\<close>.\<close>

definition catch_err :: "env \<Rightarrow> (chain \<Rightarrow> (response \<times> chain) option) \<Rightarrow> jsval \<Rightarrow> chain \<Rightarrow> (response \<times> chain) option" where
  "catch_err E nxt err s =
     (let (res, tr') = getResForError (e_ser E) (e_onErrorHandlers E) err (trace s)
      in nxt (s\<lparr>handlerResponse := Some res, trace := tr'\<rparr>))"

text \<open>
  The part of \<open>next\<close> below the \<open>if (index < middlewares.length)\<close> block: the stored
  response if there is one, otherwise validation of \<open>query\<close> and \<open>params\<close>, the route
  handler, and the conversion of its result.
\<close>

definition call_handler :: "env \<Rightarrow> (chain \<Rightarrow> (response \<times> chain) option) \<Rightarrow> chain \<Rightarrow> (response \<times> chain) option" where
  "call_handler E nxt s =
     (case handlerResponse s of
        Some r \<Rightarrow> Some (r, s)
      | None \<Rightarrow>
        (case runValidation (c_query (cx s)) (validateQuery (e_route E)) of
           Inl err \<Rightarrow> catch_err E nxt err s
         | Inr q \<Rightarrow>
           (let s1 = s\<lparr>cx := (cx s)\<lparr>c_query := q\<rparr>\<rparr>
            in case runValidation (c_params (cx s1)) (validateParams (e_route E)) of
                 Inl err \<Rightarrow> catch_err E nxt err s1
               | Inr p \<Rightarrow>
                 (let s2 = s1\<lparr>cx := (cx s1)\<lparr>c_params := p\<rparr>\<rparr>;
                      s3 = s2\<lparr>trace := trace s2 @ [EvHandler]\<rparr>
                  in case r_handler (e_route E) (cx s3) of
                       Throws err \<Rightarrow> catch_err E nxt err s3
                     | Returns res0 \<Rightarrow>
                       (let res = await res0
                        in case as_gen res of
                             Some g \<Rightarrow>
                               (case handleStream (e_ser E) (e_onErrorHandlers E) g (trace s3) of
                                  (Inl err, tr') \<Rightarrow> catch_err E nxt err (s3\<lparr>trace := tr'\<rparr>)
                                | (Inr r, tr') \<Rightarrow>
                                    Some (r, s3\<lparr>handlerResponse := Some r, trace := tr'\<rparr>))
                           | None \<Rightarrow>
                               (case turnHandlerResultIntoResponse (e_ser E) res (e_route E) of
                                  Inl err \<Rightarrow> catch_err E nxt err s3
                                | Inr r \<Rightarrow> Some (r, s3\<lparr>handlerResponse := Some r\<rparr>)))))))"

text \<open>
  What \<open>next\<close> does with the outcome of the middleware it called: a throw goes to
  the \<open>catch\<close> block; a response that the middleware returned is stored; after a
  falsy result the chain goes on, after a truthy one the result is converted and
  returned; and when nothing is left of the chain the control falls through to the part
  below the block.
\<close>

definition after_middleware :: "env \<Rightarrow> (chain \<Rightarrow> (response \<times> chain) option) \<Rightarrow> outcome \<Rightarrow> chain \<Rightarrow> (response \<times> chain) option" where
  "after_middleware E nxt out s2 =
     (case out of
        Throws err \<Rightarrow> catch_err E nxt err s2
      | Returns result0 \<Rightarrow>
          (let result = await result0;
               s3 = (case as_response result of
                       Some r \<Rightarrow> s2\<lparr>handlerResponse := Some r\<rparr>
                     | None \<Rightarrow> s2)
           in if \<not> truthy result \<and> index s3 < length (e_middlewares E) then nxt s3
              else if truthy result then
                (case turnHandlerResultIntoResponse (e_ser E) result (e_route E) of
                   Inl err \<Rightarrow> catch_err E nxt err s3
                 | Inr r \<Rightarrow> Some (r, s3))
              else call_handler E nxt s3))"

text \<open>
  \<open>next\<close>. The closure calls itself (after a middleware that returned nothing, and at
  the end of the \<open>catch\<close> block) and is called by the middlewares; the first argument
  bounds the depth of these calls, and \<open>None\<close> is a call cut off by the bound.
\<close>

primrec next_fuel :: "nat \<Rightarrow> env \<Rightarrow> chain \<Rightarrow> (response \<times> chain) option" where
  "next_fuel 0 E s = None"
| "next_fuel (Suc n) E s =
     (if index s < length (e_middlewares E) then
        (let middleware = e_middlewares E ! index s;
             s1 = s\<lparr>index := index s + 1, trace := trace s @ [EvMiddleware (index s)]\<rparr>
         in case run_mw (middleware (cx s1)) (next_fuel n E) s1 of
              None \<Rightarrow> None
            | Some (out, s2) \<Rightarrow> after_middleware E (next_fuel n E) out s2)
      else call_handler E (next_fuel n E) s)"

text \<open>
  The request as \<open>handle\<close> reads it: the method, \<open>u.pathname\<close>, \<open>u.search\<close> and
  the pairs that \<open>URLSearchParams\<close> finds in the search string.
\<close>

record request =
  req_method :: string
  pathname :: string
  search :: string
  search_pairs :: "(string \<times> string) list"

text \<open>\<open>parseQuery\<close>: an object from the pairs, a repeated key becoming an array.\<close>

definition parseQuery_step :: "string \<times> string \<Rightarrow> (string \<times> jsval) list \<Rightarrow> (string \<times> jsval) list" where
  "parseQuery_step kv paramsObject =
     (let old = (case map_of paramsObject (fst kv) of Some v \<Rightarrow> v | None \<Rightarrow> JUndefined)
      in if truthy old then
           set_prop paramsObject (fst kv)
             (case old of JArray xs \<Rightarrow> JArray (xs @ [JStr (snd kv)])
                        | _ \<Rightarrow> JArray [old, JStr (snd kv)])
         else set_prop paramsObject (fst kv) (JStr (snd kv)))"

definition parseQuery :: "(string \<times> string) list \<Rightarrow> jsval" where
  "parseQuery pairs = JObject (fold parseQuery_step pairs [])"

text \<open>
  \<open>lodashCloneDeep\<close> on the values of the embedding, which are trees without shared
  parts: the copy of a value is the value.
\<close>

definition cloneDeep :: "jsval \<Rightarrow> jsval" where
  "cloneDeep x = x"

text \<open>
  \<open>handle(request, {state})\<close> on the application \<open>this\<close>, with the bound on the depth
  of \<open>next\<close> calls as first argument: the response and the events of the call. \<open>None\<close>
  is a call that does not return.
\<close>

definition initial_chain :: "request \<Rightarrow> match_result \<Rightarrow> jsval option \<Rightarrow> chain" where
  "initial_chain req route customState =
     \<lparr>index = 0, handlerResponse = None,
      cx = \<lparr>c_path = pathname req @ search req,
             c_query = parseQuery (search_pairs req),
             c_params = m_params route,
             c_state = (case customState of
                          Some st \<Rightarrow> if truthy st then st else cloneDeep (defaultState (m_app route))
                        | None \<Rightarrow> cloneDeep (defaultState (m_app route)))\<rparr>,
      trace = []\<rparr>"

definition handle_env :: "serializer \<Rightarrow> app list \<Rightarrow> match_result \<Rightarrow> env" where
  "handle_env ser appsInScope route =
     \<lparr>e_ser = ser,
      e_middlewares = concat (map middlewares appsInScope),
      e_onErrorHandlers = concat (map onErrorHandlers appsInScope),
      e_route = m_route route\<rparr>"

definition handle :: "nat \<Rightarrow> serializer \<Rightarrow> app \<Rightarrow> request \<Rightarrow> jsval option \<Rightarrow> (response \<times> event list) option" where
  "handle fuel ser this req customState =
     (case match this (req_method req) (pathname req @ search req) of
        None \<Rightarrow> None
      | Some route \<Rightarrow>
        (case getAppsInScope this (Some (m_app route)) of
           None \<Rightarrow> None
         | Some appsInScope \<Rightarrow>
             map_option (\<lambda>(r, s). (r, trace s))
               (next_fuel fuel (handle_env ser appsInScope route)
                  (initial_chain req route customState))))"

text \<open>
  For the proofs: the calls of middlewares and of the route handler among the events, and
  what a call of \<open>next\<close> may do to the shared variables, \<open>len\<close> being the length of
  the chain. The index does not go back nor beyond the chain, a stored response stays
  stored, and the new events call the middlewares from the old index up to the new one, in
  order, followed by at most one call of the route handler; the handler is called only at
  the end of the chain, when no response was stored, and a response is stored afterwards.
\<close>

fun is_call :: "event \<Rightarrow> bool" where
  "is_call (EvMiddleware i) = True"
| "is_call EvHandler = True"
| "is_call e = False"

definition calls :: "event list \<Rightarrow> event list" where
  "calls tr = filter is_call tr"

definition ext :: "nat \<Rightarrow> chain \<Rightarrow> chain \<Rightarrow> bool" where
  "ext len s s' \<longleftrightarrow>
     index s \<le> index s' \<and> index s' \<le> max (index s) len \<and>
     (handlerResponse s \<noteq> None \<longrightarrow> handlerResponse s' \<noteq> None) \<and>
     (\<exists>tr. trace s' = trace s @ tr \<and>
        (calls tr = map EvMiddleware [index s ..< index s'] \<or>
         calls tr = map EvMiddleware [index s ..< index s'] @ [EvHandler] \<and>
         len \<le> index s' \<and> handlerResponse s = None \<and> handlerResponse s' \<noteq> None))"

definition nxt_ok :: "nat \<Rightarrow> (chain \<Rightarrow> (response \<times> chain) option) \<Rightarrow> bool" where
  "nxt_ok len nxt \<longleftrightarrow> (\<forall>s r s'. nxt s = Some (r, s') \<longrightarrow> ext len s s')"


text \<open>
  A middleware that lets the response through: it does not throw, and what it returns is
  falsy or the response that its latest \<open>await next()\<close> gave. The second argument is
  that response, if \<open>next\<close> was called.
\<close>

primrec quiet :: "mw \<Rightarrow> response option \<Rightarrow> bool" where
  "quiet (MwReturn v) latest =
     (\<not> truthy (await v) \<or> (case latest of Some r \<Rightarrow> await v = JResponse r | None \<Rightarrow> False))"
| "quiet (MwThrow e) latest = False"
| "quiet (MwNext k) latest = (\<forall>r. quiet (k r) (Some r))"



section \<open>The request state in a store\<close>

text \<open>
  For the state of a request the values above are not enough: \<open>defaultState\<close> and the
  \<open>state\<close> of a context are objects, and what matters is which objects a write
  reaches. Here an object is a list of fields, a field holds a primitive value or the
  address of an object, and the store is the list of all objects, an address being a
  position in it.
\<close>

datatype hval = HPrim jsval | HRef nat

type_synonym obj = "(string \<times> hval) list"

type_synonym object_store = "obj list"

text \<open>The addresses that can be reached from an address by following fields.\<close>

inductive_set reach :: "object_store \<Rightarrow> nat \<Rightarrow> nat set" for h :: object_store and a :: nat where
  reach_self: "a \<in> reach h a"
| reach_field: "b \<in> reach h a \<Longrightarrow> b < length h \<Longrightarrow> (k, HRef c) \<in> set (h ! b) \<Longrightarrow> c \<in> reach h a"

text \<open>Every address held in a field is the address of an object of the store.\<close>

definition closed :: "object_store \<Rightarrow> bool" where
  "closed h \<longleftrightarrow> (\<forall>b < length h. \<forall>k c. (k, HRef c) \<in> set (h ! b) \<longrightarrow> c < length h)"








section \<open>Applications and requests to try the dispatcher on\<close>

text \<open>
  A serialiser (strings in double quotes, anything else as \<open>{}\<close>), a router with one
  path and one method, a \<open>GET\<close> route, and the request \<open>GET /test\<close>.
\<close>

definition demo_ser :: serializer where
  "demo_ser v flag = (case v of JStr s \<Rightarrow> [CHR 0x22] @ s @ [CHR 0x22] | _ \<Rightarrow> ''{}'')"

definition route_of :: "(ctx \<Rightarrow> outcome) \<Rightarrow> internal_route" where
  "route_of h =
     \<lparr>r_method = ''GET'', r_path = ''/test'', r_type = [], r_handler = h,
      validateBody = None, validateQuery = None, validateParams = None\<rparr>"

definition router_of :: "string \<Rightarrow> string \<Rightarrow> internal_route \<Rightarrow> string \<Rightarrow> medley_route option" where
  "router_of path method route p =
     (if p = path
      then Some \<lparr>store = (\<lambda>m. if m = method then Some route else None), params = JObject []\<rparr>
      else None)"


definition ok_response :: response where
  "ok_response = new_Response (BText ''ok'') 200 []"

text \<open>
  \<open>new Spiceflow().use(async () => new Response("ok")).get("/test", () => "hi")\<close>:
  the middleware answers by itself.
\<close>

definition short_circuit_app :: app where
  "short_circuit_app =
     App 0 None None [\<lambda>c. MwReturn (JResponse ok_response)] []
       (router_of ''/test'' ''GET'' (route_of (\<lambda>c. Returns (JStr ''hi'')))) (JObject []) []"








text \<open>
  A request for a path that no route has, and an application whose middleware awaits
  \<open>next()\<close> and returns the response it got, with an error handler that would answer.
\<close>

definition get_missing :: request where
  "get_missing = \<lparr>req_method = ''GET'', pathname = ''/non-existent'', search = [], search_pairs = []\<rparr>"

definition return_next :: middleware where
  "return_next c = MwNext (\<lambda>r. MwReturn (JResponse r))"

definition answering :: on_error where
  "answering e = JResponse (new_Response (BText ''Error'') 400 [])"

definition wrapped_app :: app where
  "wrapped_app =
     App 0 None None [return_next] [answering]
       (router_of ''/test'' ''GET'' (route_of (\<lambda>c. Returns (JStr ''Hello'')))) (JObject []) []"













text \<open>The events of a call of \<open>handle\<close>, and the middleware and handler calls among them.\<close>

definition events_of :: "(response \<times> event list) option \<Rightarrow> event list" where
  "events_of res = (case res of Some (r, tr) \<Rightarrow> tr | None \<Rightarrow> [])"

definition response_of :: "(response \<times> event list) option \<Rightarrow> response option" where
  "response_of res = map_option fst res"

section \<open>Properties of the application tree\<close>

lemma bfs_queue_bfs_list: "bfs_queue q acc = acc @ bfs_list q"
  by (induction q acc rule: bfs_queue.induct) simp_all

lemma bfs_bfs_list: "bfs t = bfs_list [t]"
  by (simp add: bfs_def bfs_queue_bfs_list)

lemma nodes_unfold: "nodes t = t # concat (map nodes (childrenApps t))"
  by (cases t) simp

lemma mset_bfs_list: "mset (bfs_list q) = mset (concat (map nodes q))"
proof (induction q rule: bfs_list.induct)
  case 1
  show ?case by simp
next
  case (2 node queue)
  have "mset (nodes node) = {#node#} + mset (concat (map nodes (childrenApps node)))"
    by (subst nodes_unfold) simp
  with 2 show ?case by (simp add: mset_concat)
qed

lemma mset_bfs: "mset (bfs t) = mset (nodes t)"
  unfolding bfs_bfs_list mset_bfs_list by simp

lemma set_bfs: "set (bfs t) = set (nodes t)"
  using mset_bfs [of t] by (metis set_mset_mset)

lemma bfsFind_setParents:
  "bfsFind_queue setParents s q =
     (None, fold (\<lambda>n m. snd (setParents m n)) (bfs_list q) s)"
  by (induction setParents s q rule: bfsFind_queue.induct)
     (simp_all add: setParents_def)

lemma fold_upd_pairs:
  "fold (\<lambda>kv m. m(fst kv \<mapsto> snd kv)) ps m = m ++ map_of (rev ps)"
proof (induction ps arbitrary: m)
  case Nil
  show ?case by simp
next
  case (Cons p ps)
  have "fold (\<lambda>kv m. m(fst kv \<mapsto> snd kv)) (p # ps) m =
        fold (\<lambda>kv m. m(fst kv \<mapsto> snd kv)) ps (m(fst p \<mapsto> snd p))"
    by (simp only: fold_Cons comp_apply)
  also have "\<dots> = m(fst p \<mapsto> snd p) ++ map_of (rev ps)"
    by (rule Cons.IH)
  also have "\<dots> = m ++ map_of (rev (p # ps))"
    by (rule ext) (auto simp: map_add_def split: option.splits)
  finally show ?case .
qed

lemma fold_children_pairs:
  "fold (\<lambda>child m. m(app_id child \<mapsto> n)) cs m =
     fold (\<lambda>kv m. m(fst kv \<mapsto> snd kv)) (map (\<lambda>c. (app_id c, n)) cs) m"
  by (induction cs arbitrary: m) simp_all

lemma fold_setParents:
  "fold (\<lambda>n m. snd (setParents m n)) ns m =
     fold (\<lambda>kv m. m(fst kv \<mapsto> snd kv)) (parentPairs ns) m"
  by (induction ns arbitrary: m)
     (simp_all add: parentPairs_def setParents_def fold_children_pairs)

lemma parentMap_eq:
  "snd (bfsFind root setParents Map.empty) = map_of (rev (parentPairs (bfs root)))"
  unfolding bfsFind_def bfsFind_setParents fold_setParents fold_upd_pairs bfs_bfs_list
  by simp

lemma parentPairs_append: "parentPairs (xs @ ys) = parentPairs xs @ parentPairs ys"
  by (simp add: parentPairs_def)

lemma parentPairs_Cons:
  "parentPairs (t # ns) = map (\<lambda>c. (app_id c, t)) (childrenApps t) @ parentPairs ns"
  by (simp add: parentPairs_def)

lemma keys_children:
  assumes "\<And>c. c \<in> set cs \<Longrightarrow>
             mset (map app_id (nodes c)) = {#app_id c#} + mset (map fst (parentPairs (nodes c)))"
  shows "mset (map app_id (concat (map nodes cs))) =
           mset (map app_id cs) + mset (map fst (parentPairs (concat (map nodes cs))))"
  using assms by (induction cs) (simp_all add: parentPairs_append parentPairs_def [of "[]"])

lemma keys_nodes:
  "mset (map app_id (nodes t)) = {#app_id t#} + mset (map fst (parentPairs (nodes t)))"
proof (induction t)
  case (App i p sc ms es r d cs)
  have "mset (map app_id (concat (map nodes cs))) =
          mset (map app_id cs) + mset (map fst (parentPairs (concat (map nodes cs))))"
    by (rule keys_children) (rule App.IH)
  then show ?case
    by (simp add: parentPairs_Cons comp_def)
qed

lemma mset_parentPairs: "mset xs = mset ys \<Longrightarrow> mset (parentPairs xs) = mset (parentPairs ys)"
proof -
  assume eq: "mset xs = mset ys"
  have "\<And>zs. mset (parentPairs zs) =
          sum_mset (image_mset (\<lambda>n. mset (map (\<lambda>c. (app_id c, n)) (childrenApps n))) (mset zs))"
    by (induct_tac zs) (simp_all add: parentPairs_def)
  with eq show ?thesis by simp
qed

lemma keys_bfs:
  "mset (map app_id (bfs t)) = {#app_id t#} + mset (map fst (parentPairs (bfs t)))"
proof -
  have "mset (map fst (parentPairs (bfs t))) = mset (map fst (parentPairs (nodes t)))"
    using mset_parentPairs [OF mset_bfs [of t]] by (metis mset_map)
  moreover have "mset (map app_id (bfs t)) = mset (map app_id (nodes t))"
    using mset_bfs [of t] by (metis mset_map)
  ultimately show ?thesis using keys_nodes [of t] by simp
qed

lemma distinct_keys:
  assumes "distinct (map app_id (bfs t))"
  shows "distinct (map fst (parentPairs (bfs t)))"
    and "app_id t \<notin> fst ` set (parentPairs (bfs t))"
proof -
  have "mset (map app_id (bfs t)) = mset (app_id t # map fst (parentPairs (bfs t)))"
    using keys_bfs [of t] by simp
  then have "distinct (app_id t # map fst (parentPairs (bfs t)))"
    using assms mset_eq_imp_distinct_iff by blast
  then show "distinct (map fst (parentPairs (bfs t)))"
    and "app_id t \<notin> fst ` set (parentPairs (bfs t))"
    by simp_all
qed

lemma parentMap_child:
  assumes "distinct (map app_id (bfs t))" "p \<in> set (bfs t)" "c \<in> set (childrenApps p)"
  shows "snd (bfsFind t setParents Map.empty) (app_id c) = Some p"
proof -
  have "(app_id c, p) \<in> set (rev (parentPairs (bfs t)))"
    using assms(2,3) by (auto simp: parentPairs_def)
  moreover have "distinct (map fst (rev (parentPairs (bfs t))))"
    using distinct_keys(1) [OF assms(1)] by (simp add: rev_map [symmetric])
  ultimately show ?thesis
    unfolding parentMap_eq by (rule map_of_is_SomeI [rotated])
qed

lemma parentMap_root:
  assumes "distinct (map app_id (bfs t))"
  shows "snd (bfsFind t setParents Map.empty) (app_id t) = None"
  unfolding parentMap_eq using distinct_keys(2) [OF assms]
  by (simp add: map_of_eq_None_iff)

lemma nodes_self: "t \<in> set (nodes t)"
  by (cases t) simp

lemma nodes_child: "c \<in> set (childrenApps t) \<Longrightarrow> set (nodes c) \<subseteq> set (nodes t)"
  by (cases t) auto

lemma nodes_trans: "a \<in> set (nodes t) \<Longrightarrow> set (nodes a) \<subseteq> set (nodes t)"
proof (induction t)
  case (App i p sc ms es r d cs)
  show ?case
  proof (cases "a = App i p sc ms es r d cs")
    case True
    then show ?thesis by simp
  next
    case False
    with App.prems obtain c where c: "c \<in> set cs" "a \<in> set (nodes c)" by auto
    then have "set (nodes a) \<subseteq> set (nodes c)" by (rule App.IH)
    with c(1) show ?thesis by auto
  qed
qed

lemma ancestors_chain:
  "ancestorsOf t k = Some path \<Longrightarrow>
     path \<noteq> [] \<and> hd path = t \<and> app_id (last path) = k \<and> is_chain path \<and>
     set path \<subseteq> set (nodes t)"
  "ancestorsOf_children cs k = Some path \<Longrightarrow>
     path \<noteq> [] \<and> hd path \<in> set cs \<and> app_id (last path) = k \<and> is_chain path \<and>
     set path \<subseteq> set (concat (map nodes cs))"
proof (induction t k and cs k arbitrary: path and path rule: ancestorsOf_ancestorsOf_children.induct)
  case (1 i p sc ms es r d cs k)
  show ?case
  proof (cases "i = k")
    case True
    with 1 show ?thesis by auto
  next
    case False
    with "1.prems" obtain q where q: "ancestorsOf_children cs k = Some q" "path = App i p sc ms es r d cs # q"
      by auto
    from "1.IH" [OF False q(1)] q(2) show ?thesis
      by (cases q) auto
  qed
next
  case (2 k)
  then show ?case by simp
next
  case (3 c cs k)
  show ?case
  proof (cases "ancestorsOf c k")
    case None
    with "3.prems" have "ancestorsOf_children cs k = Some path" by simp
    from "3.IH"(2) [OF None this] show ?thesis by auto
  next
    case (Some q)
    with "3.prems" have "q = path" by simp
    with "3.IH"(1) [OF Some] show ?thesis by auto
  qed
qed

lemma ancestors_exist:
  "k \<in> app_id ` set (nodes t) \<Longrightarrow> ancestorsOf t k \<noteq> None"
  "k \<in> app_id ` set (concat (map nodes cs)) \<Longrightarrow> ancestorsOf_children cs k \<noteq> None"
  by (induction t k and cs k rule: ancestorsOf_ancestorsOf_children.induct)
     (auto split: option.splits)

lemma climb_chain_aux:
  assumes pm: "\<And>p c. p \<in> set (x # xs) \<Longrightarrow> c \<in> set (childrenApps p) \<Longrightarrow> pm (app_id c) = Some p"
    and "is_chain (x # xs)"
  shows "climb pm (Some (last (x # xs))) acc = climb pm (Some x) (xs @ acc)"
  using assms
proof (induction xs arbitrary: x)
  case Nil
  show ?case by simp
next
  case (Cons y ys)
  have "climb pm (Some (last (y # ys))) acc = climb pm (Some y) (ys @ acc)"
    using Cons.prems by (intro Cons.IH) auto
  also have "\<dots> = climb pm (pm (app_id y)) (y # ys @ acc)"
    by (subst climb.simps) simp
  also have "pm (app_id y) = Some x"
    using Cons.prems by auto
  finally show ?case by simp
qed

lemma climb_chain:
  assumes "\<And>p c. p \<in> set path \<Longrightarrow> c \<in> set (childrenApps p) \<Longrightarrow> pm (app_id c) = Some p"
    and "is_chain path" and "path \<noteq> []" and "pm (app_id (hd path)) = None"
  shows "climb pm (Some (last path)) acc = Some (path @ acc)"
proof -
  from assms(3) obtain x xs where p: "path = x # xs" by (cases path) auto
  have "climb pm (Some (last path)) acc = climb pm (Some x) (xs @ acc)"
    unfolding p using assms(1,2) unfolding p by (rule climb_chain_aux)
  also have "\<dots> = climb pm None (x # xs @ acc)"
    using assms(4) by (subst climb.simps) (simp add: p)
  also have "\<dots> = Some (path @ acc)"
    by (subst climb.simps) (simp add: p)
  finally show ?thesis .
qed

lemma nodes_trans_list:
  "a \<in> set (concat (map nodes cs)) \<Longrightarrow> set (nodes a) \<subseteq> set (concat (map nodes cs))"
  using nodes_trans by fastforce

lemma anc_set:
  "distinct (map app_id (nodes t)) \<Longrightarrow> ancestorsOf t k = Some path \<Longrightarrow>
     set path = {a \<in> set (nodes t). k \<in> app_id ` set (nodes a)}"
  "distinct (map app_id (concat (map nodes cs))) \<Longrightarrow> ancestorsOf_children cs k = Some path \<Longrightarrow>
     set path = {a \<in> set (concat (map nodes cs)). k \<in> app_id ` set (nodes a)}"
proof (induction t k and cs k arbitrary: path and path rule: ancestorsOf_ancestorsOf_children.induct)
  case (1 i p sc ms es r d cs k)
  let ?t = "App i p sc ms es r d cs"
  have dcs: "distinct (map app_id (concat (map nodes cs)))"
    and inot: "i \<notin> app_id ` set (concat (map nodes cs))"
    using "1.prems"(1) by auto
  have below: "\<And>a. a \<in> set (concat (map nodes cs)) \<Longrightarrow> i \<notin> app_id ` set (nodes a)"
    using inot nodes_trans_list by blast
  show ?case
  proof (cases "i = k")
    case True
    with "1.prems"(2) have "path = [?t]" by simp
    moreover have "{a \<in> set (nodes ?t). k \<in> app_id ` set (nodes a)} = {?t}"
    proof -
      have "?t \<in> {a \<in> set (nodes ?t). k \<in> app_id ` set (nodes a)}"
        using True by force
      moreover have "\<And>a. a \<in> set (nodes ?t) \<Longrightarrow> k \<in> app_id ` set (nodes a) \<Longrightarrow> a = ?t"
        using below True by auto
      ultimately show ?thesis by blast
    qed
    ultimately show ?thesis by simp
  next
    case False
    with "1.prems"(2) obtain q where q: "ancestorsOf_children cs k = Some q" "path = ?t # q"
      by auto
    have sq: "set q = {a \<in> set (concat (map nodes cs)). k \<in> app_id ` set (nodes a)}"
      by (rule "1.IH" [OF False dcs q(1)])
    from ancestors_chain(2) [OF q(1)]
    have "last q \<in> set (concat (map nodes cs))" "app_id (last q) = k"
      using last_in_set by blast+
    then have kt: "k \<in> app_id ` set (nodes ?t)" by force
    have eq: "set (nodes ?t) = insert ?t (set (concat (map nodes cs)))" by simp
    have "{a \<in> set (nodes ?t). k \<in> app_id ` set (nodes a)} = insert ?t (set q)"
      unfolding eq sq using kt by blast
    then show ?thesis by (simp only: q(2) list.set)
  qed
next
  case (2 k)
  then show ?case by simp
next
  case (3 c cs k)
  have dc: "distinct (map app_id (nodes c))"
    and dcs: "distinct (map app_id (concat (map nodes cs)))"
    and disj: "app_id ` set (nodes c) \<inter> app_id ` set (concat (map nodes cs)) = {}"
    using "3.prems"(1) by auto
  show ?case
  proof (cases "ancestorsOf c k")
    case None
    with "3.prems"(2) have p: "ancestorsOf_children cs k = Some path" by simp
    have sp: "set path = {a \<in> set (concat (map nodes cs)). k \<in> app_id ` set (nodes a)}"
      by (rule "3.IH"(2) [OF None dcs p])
    have "k \<notin> app_id ` set (nodes c)"
      using ancestors_exist(1) [of k c] None by blast
    then have "\<And>a. a \<in> set (nodes c) \<Longrightarrow> k \<notin> app_id ` set (nodes a)"
      using nodes_trans by blast
    then show ?thesis unfolding sp by auto
  next
    case (Some q)
    with "3.prems"(2) have qp: "q = path" by simp
    have sp: "set path = {a \<in> set (nodes c). k \<in> app_id ` set (nodes a)}"
      using "3.IH"(1) [OF dc Some] qp by simp
    from ancestors_chain(1) [OF Some]
    have "last q \<in> set (nodes c)" "app_id (last q) = k"
      using last_in_set by blast+
    then have "k \<in> app_id ` set (nodes c)" by blast
    then have "k \<notin> app_id ` set (concat (map nodes cs))"
      using disj by blast
    then have "\<And>a. a \<in> set (concat (map nodes cs)) \<Longrightarrow> k \<notin> app_id ` set (nodes a)"
      using nodes_trans_list by blast
    then show ?thesis unfolding sp by auto
  qed
qed

lemma distinct_nodes_bfs: "distinct (map app_id (nodes t)) = distinct (map app_id (bfs t))"
proof -
  have "mset (map app_id (nodes t)) = mset (map app_id (bfs t))"
    using mset_bfs [of t] by (metis mset_map)
  then show ?thesis by (rule mset_eq_imp_distinct_iff)
qed

lemma bfs_leaf: "childrenApps t = [] \<Longrightarrow> bfs t = [t]"
  by (simp add: bfs_bfs_list)

lemma includes_app_iff:
  assumes "inj_on app_id S" "set xs \<subseteq> S" "a \<in> S"
  shows "includes_app xs a \<longleftrightarrow> a \<in> set xs"
  using assms unfolding includes_app_def inj_on_def by auto

lemma getAppsInScope_char:
  assumes "distinct (map app_id (bfs root))" and "cur \<in> set (bfs root)"
  shows "\<exists>path scope.
           ancestorsOf root (app_id cur) = Some path \<and> hd path = root \<and> last path = cur \<and>
           getAppAndParents root (Some cur) = Some path \<and>
           getAppsInScope root (Some cur) = Some scope \<and>
           scope = filter (\<lambda>a. a \<in> set path \<or> scoped a = Some False) (bfs root) \<and>
           (\<forall>a \<in> set (bfs root). scoped a = Some False \<longrightarrow> a \<in> set scope) \<and>
           (\<forall>a \<in> set (bfs root). scoped a \<noteq> Some False \<longrightarrow>
              (a \<in> set scope \<longleftrightarrow> cur \<in> set (bfs a)))"
proof -
  let ?S = "set (bfs root)"
  have inj: "inj_on app_id ?S"
    using assms(1) by (simp add: distinct_map)
  have cur: "cur \<in> set (nodes root)"
    using assms(2) by (simp add: set_bfs)
  then have "ancestorsOf root (app_id cur) \<noteq> None"
    by (intro ancestors_exist(1)) blast
  then obtain path where path: "ancestorsOf root (app_id cur) = Some path" by blast
  note ch = ancestors_chain(1) [OF path]
  have sub: "set path \<subseteq> ?S" using ch by (simp add: set_bfs)
  have "last path \<in> ?S" using ch sub last_in_set by blast
  with ch inj assms(2) have lastp: "last path = cur" by (auto dest: inj_onD)
  have gp: "getAppAndParents root (Some cur) = Some path"
  proof (cases "childrenApps root = []")
    case True
    then have "bfs root = [root]" by (rule bfs_leaf)
    with assms(2) have "cur = root" by simp
    with path have "path = [root]" by (cases root) simp
    with True show ?thesis by (simp add: getAppAndParents_def)
  next
    case False
    let ?pm = "snd (bfsFind root setParents Map.empty)"
    have "climb ?pm (Some (last path)) [] = Some (path @ [])"
    proof (rule climb_chain)
      fix p c assume "p \<in> set path" "c \<in> set (childrenApps p)"
      with sub show "?pm (app_id c) = Some p"
        by (intro parentMap_child [OF assms(1)]) auto
    next
      show "is_chain path" "path \<noteq> []" using ch by simp_all
      show "?pm (app_id (hd path)) = None"
        using ch parentMap_root [OF assms(1)] by simp
    qed
    with False lastp show ?thesis by (simp add: getAppAndParents_def)
  qed
  let ?scope = "filter (\<lambda>a. a \<in> set path \<or> scoped a = Some False) (bfs root)"
  have gs: "getAppsInScope root (Some cur) = Some ?scope"
  proof (cases "childrenApps root = []")
    case True
    then have b: "bfs root = [root]" by (rule bfs_leaf)
    have "root \<in> set path" using ch hd_in_set by blast
    with True b show ?thesis by (simp add: getAppsInScope_def)
  next
    case False
    have "\<And>a. a \<in> ?S \<Longrightarrow>
            (includes_app (filter (\<lambda>x. scoped x = Some False) (bfs root)) a \<or> includes_app path a)
            = (a \<in> set path \<or> scoped a = Some False)"
      using includes_app_iff [OF inj sub]
        includes_app_iff [OF inj, of "filter (\<lambda>x. scoped x = Some False) (bfs root)"]
      by auto
    then have "filter (\<lambda>a. includes_app (filter (\<lambda>x. scoped x = Some False) (bfs root)) a \<or>
                 includes_app path a) (bfs root) = ?scope"
      by (intro filter_cong) auto
    with False gp show ?thesis by (simp add: getAppsInScope_def Let_def)
  qed
  have dn: "distinct (map app_id (nodes root))"
    using assms(1) by (simp add: distinct_nodes_bfs)
  have sp: "set path = {a \<in> set (nodes root). app_id cur \<in> app_id ` set (nodes a)}"
    by (rule anc_set(1) [OF dn path])
  have branch: "\<And>a. a \<in> ?S \<Longrightarrow> (a \<in> set path \<longleftrightarrow> cur \<in> set (bfs a))"
  proof -
    fix a assume a: "a \<in> ?S"
    then have an: "a \<in> set (nodes root)" by (simp add: set_bfs)
    have "app_id cur \<in> app_id ` set (nodes a) \<longleftrightarrow> cur \<in> set (nodes a)"
    proof
      assume "app_id cur \<in> app_id ` set (nodes a)"
      then obtain x where x: "x \<in> set (nodes a)" "app_id x = app_id cur" by auto
      with an nodes_trans have "x \<in> ?S" by (auto simp: set_bfs)
      with x(2) inj assms(2) have "x = cur" by (auto dest: inj_onD)
      with x(1) show "cur \<in> set (nodes a)" by simp
    qed blast
    with an show "a \<in> set path \<longleftrightarrow> cur \<in> set (bfs a)"
      unfolding sp by (simp add: set_bfs)
  qed
  show ?thesis
    using path ch lastp gp gs branch by (intro exI [of _ path] exI [of _ ?scope]) auto
qed

text \<open>
  C5. In a tree whose nodes have distinct ids, for a node \<open>cur\<close> of the tree:
  \<open>getAppAndParents\<close> is the ancestor chain from the root to \<open>cur\<close>, and
  \<open>getAppsInScope\<close> is the breadth-first list of the tree restricted to the nodes on
  that chain and the nodes with \<open>scoped === false\<close>. Hence an unscoped node is in scope
  of every node, and any other node is in scope exactly of the nodes of its own branch.
\<close>

theorem getAppsInScope_ancestors_and_unscoped:
  assumes "distinct (map app_id (bfs root))" and "cur \<in> set (bfs root)"
  shows "\<exists>path scope.
           ancestorsOf root (app_id cur) = Some path \<and> hd path = root \<and> last path = cur \<and>
           getAppAndParents root (Some cur) = Some path \<and>
           getAppsInScope root (Some cur) = Some scope \<and>
           scope = filter (\<lambda>a. a \<in> set path \<or> scoped a = Some False) (bfs root) \<and>
           (\<forall>a \<in> set (bfs root). scoped a = Some False \<longrightarrow> a \<in> set scope) \<and>
           (\<forall>a \<in> set (bfs root). scoped a \<noteq> Some False \<longrightarrow>
              (a \<in> set scope \<longleftrightarrow> cur \<in> set (bfs a)))"
  using assms by (rule getAppsInScope_char)

theorem getAppsInScope_ancestors_and_unscoped_witness:
  "distinct (map app_id (bfs tree_root)) \<and> tree_leaf \<in> set (bfs tree_root) \<and>
   getAppAndParents tree_root (Some tree_leaf) = ancestorsOf tree_root (app_id tree_leaf) \<and>
   tree_leaf \<in> set (the (getAppsInScope tree_root (Some tree_leaf)))"
proof -
  have d: "distinct (map app_id (bfs tree_root))"
    by code_simp
  have "childrenApps tree_leaf = []"
    by (simp add: tree_leaf_def mk_app_def)
  then have c: "tree_leaf \<in> set (bfs tree_root)"
    by (simp add: tree_root_def mk_app_def bfs_def)
  from getAppsInScope_ancestors_and_unscoped [OF d c] obtain path scope where
    p: "ancestorsOf tree_root (app_id tree_leaf) = Some path" "last path = tree_leaf"
       "getAppAndParents tree_root (Some tree_leaf) = Some path"
       "getAppsInScope tree_root (Some tree_leaf) = Some scope"
       "scope = filter (\<lambda>a. a \<in> set path \<or> scoped a = Some False) (bfs tree_root)"
    by blast
  from ancestors_chain(1) [OF p(1)] p(2) have "tree_leaf \<in> set path"
    using last_in_set by metis
  with c p(4,5) have "tree_leaf \<in> set (the (getAppsInScope tree_root (Some tree_leaf)))"
    by simp
  with d c p(1,3) show ?thesis by simp
qed

section \<open>Properties of the stream adapter and of the error handlers\<close>

text \<open>
  C9. When the first pull finds the generator finished with the value \<open>v\<close>,
  \<open>handleStream\<close> returns at once a response whose whole body is the text
  \<open>event: message\<close>, line feed, \<open>data: \<close> and the serialised \<open>v\<close>, two line feeds,
  \<open>event: done\<close>, two line feeds; the body is not a stream and no
  \<open>transfer-encoding\<close> header is set. This holds for every \<open>v\<close>, the non-empty
  ones among them.
\<close>

theorem handleStream_finished_generator:
  "\<exists>r. handleStream ser handlers (GReturn v) tr = (Inr r, tr) \<and>
       rbody r = BText (''event: message'' @ LF @ ''data: '' @ ser v (Some False) @ LF @ LF @
                        ''event: done'' @ LF @ LF) \<and>
       (\<forall>chunks. rbody r \<noteq> BStream chunks) \<and>
       map_of (headers r) ''transfer-encoding'' = None \<and>
       map_of (headers r) ''Content-Type'' = Some ''text/event-stream''"
  by (simp add: handleStream_def new_Response_def)




section \<open>Properties of the dispatcher\<close>

lemma calls_append: "calls (a @ b) = calls a @ calls b"
  by (simp add: calls_def)

lemma ext_refl: "ext len s s"
  by (simp add: ext_def calls_def)

lemma upt_split: "i \<le> j \<Longrightarrow> j \<le> k \<Longrightarrow> [i ..< j] @ [j ..< k] = [i ..< k]"
  by (metis le_Suc_ex upt_add_eq_append)

lemma ext_trans:
  assumes "ext len s s'" and "ext len s' s''"
  shows "ext len s s''"
proof -
  from assms(1) obtain tr1 where 1: "index s \<le> index s'" "index s' \<le> max (index s) len"
    "handlerResponse s \<noteq> None \<longrightarrow> handlerResponse s' \<noteq> None"
    "trace s' = trace s @ tr1"
    "calls tr1 = map EvMiddleware [index s ..< index s'] \<or>
     calls tr1 = map EvMiddleware [index s ..< index s'] @ [EvHandler] \<and>
     len \<le> index s' \<and> handlerResponse s = None \<and> handlerResponse s' \<noteq> None"
    unfolding ext_def by blast
  from assms(2) obtain tr2 where 2: "index s' \<le> index s''" "index s'' \<le> max (index s') len"
    "handlerResponse s' \<noteq> None \<longrightarrow> handlerResponse s'' \<noteq> None"
    "trace s'' = trace s' @ tr2"
    "calls tr2 = map EvMiddleware [index s' ..< index s''] \<or>
     calls tr2 = map EvMiddleware [index s' ..< index s''] @ [EvHandler] \<and>
     len \<le> index s'' \<and> handlerResponse s' = None \<and> handlerResponse s'' \<noteq> None"
    unfolding ext_def by blast
  have tr: "trace s'' = trace s @ (tr1 @ tr2)" using 1(4) 2(4) by simp
  have idx: "index s \<le> index s''" "index s'' \<le> max (index s) len"
    using 1(1,2) 2(1,2) by auto
  have hr: "handlerResponse s \<noteq> None \<longrightarrow> handlerResponse s'' \<noteq> None"
    using 1(3) 2(3) by blast
  have sp: "map EvMiddleware [index s ..< index s'] @ map EvMiddleware [index s' ..< index s'']
            = map EvMiddleware [index s ..< index s'']"
    using upt_split [OF 1(1) 2(1)] by (metis map_append)
  show ?thesis
  proof (cases "calls tr1 = map EvMiddleware [index s ..< index s']")
    case True
    from 2(5) show ?thesis
    proof
      assume "calls tr2 = map EvMiddleware [index s' ..< index s'']"
      with True sp have "calls (tr1 @ tr2) = map EvMiddleware [index s ..< index s'']"
        by (simp add: calls_append)
      with tr idx hr show ?thesis unfolding ext_def by blast
    next
      assume a: "calls tr2 = map EvMiddleware [index s' ..< index s''] @ [EvHandler] \<and>
        len \<le> index s'' \<and> handlerResponse s' = None \<and> handlerResponse s'' \<noteq> None"
      with True sp have "calls (tr1 @ tr2) = map EvMiddleware [index s ..< index s''] @ [EvHandler]"
        by (simp add: calls_append)
      moreover have "handlerResponse s = None" using a 1(3) by blast
      ultimately show ?thesis using tr idx hr a unfolding ext_def by blast
    qed
  next
    case False
    with 1(5) have h1: "calls tr1 = map EvMiddleware [index s ..< index s'] @ [EvHandler]"
      "len \<le> index s'" "handlerResponse s = None" "handlerResponse s' \<noteq> None"
      by blast+
    with 2(5) have c2: "calls tr2 = map EvMiddleware [index s' ..< index s'']" by blast
    have "index s'' = index s'" using 2(1,2) h1(2) by simp
    with c2 h1(1) have "calls (tr1 @ tr2) = map EvMiddleware [index s ..< index s''] @ [EvHandler]"
      by (simp add: calls_append)
    moreover have "len \<le> index s''" using h1(2) 2(1) by simp
    moreover have "handlerResponse s'' \<noteq> None" using h1(4) 2(3) by blast
    ultimately show ?thesis using tr idx hr h1(3) unfolding ext_def by blast
  qed
qed

lemma errHandlers_loop_trace:
  "\<exists>tr. snd (errHandlers_loop hs i err tr0) = tr0 @ tr \<and> calls tr = []"
proof (induction hs arbitrary: i tr0)
  case Nil
  show ?case by (simp add: calls_def)
next
  case (Cons h hs)
  obtain tr where "snd (errHandlers_loop hs (Suc i) err (tr0 @ [EvOnError i])) = (tr0 @ [EvOnError i]) @ tr"
    "calls tr = []" using Cons.IH by blast
  then show ?case
    by (auto simp: Let_def calls_def intro: exI [of _ "EvOnError i # tr"] exI [of _ "[EvOnError i]"])
qed

lemma runErrorHandlers_trace:
  "\<exists>tr. snd (runErrorHandlers hs err tr0) = tr0 @ tr \<and> calls tr = []"
  using errHandlers_loop_trace [of hs 0 err tr0]
  by (auto simp: runErrorHandlers_def calls_def)

lemma getResForError_trace:
  "\<exists>tr. snd (getResForError ser hs err tr0) = tr0 @ tr \<and> calls tr = []"
proof -
  obtain v tr1 where r: "runErrorHandlers hs err tr0 = (v, tr1)" by (cases "runErrorHandlers hs err tr0")
  with runErrorHandlers_trace [of hs err tr0] obtain tr where tr: "tr1 = tr0 @ tr" "calls tr = []"
    by auto
  have "snd (getResForError ser hs err tr0) = tr0 \<or> snd (getResForError ser hs err tr0) = tr1"
    using r by (auto simp: getResForError_def split: option.splits)
  with tr show ?thesis by (auto simp: calls_def)
qed

lemma stream_chunks_trace:
  "\<exists>tr. snd (stream_chunks ser hs g tr0) = tr0 @ tr \<and> calls tr = []"
proof (induction ser hs g tr0 rule: stream_chunks.induct)
  case (1 ser hs chunk g tr)
  then show ?case by (auto simp: split_def Let_def)
next
  case (2 ser hs v tr)
  show ?case by (simp add: calls_def)
next
  case (3 ser hs error tr)
  show ?case using runErrorHandlers_trace [of hs error tr] by (auto simp: split_def Let_def)
qed

lemma handleStream_trace:
  "\<exists>tr. snd (handleStream ser hs g tr0) = tr0 @ tr \<and> calls tr = []"
  using stream_chunks_trace [of ser hs _ tr0]
  by (cases g) (auto simp: handleStream_def split_def Let_def calls_def)

lemma ext_same_index:
  assumes "index s' = index s" "trace s' = trace s @ tr" "calls tr = []"
    "handlerResponse s \<noteq> None \<longrightarrow> handlerResponse s' \<noteq> None"
  shows "ext len s s'"
  unfolding ext_def using assms by auto

lemma ext_handler:
  assumes "index s' = index s" "len \<le> index s" "trace s' = trace s @ tr"
    "calls tr = [EvHandler]" "handlerResponse s = None" "handlerResponse s' \<noteq> None"
  shows "ext len s s'"
  unfolding ext_def using assms by auto

lemma run_mw_ok:
  assumes "nxt_ok len nxt"
  shows "run_mw t nxt s = Some (out, s') \<Longrightarrow> ext len s s'"
proof (induction t arbitrary: s)
  case (MwReturn v)
  then show ?case by (simp add: ext_refl)
next
  case (MwThrow e)
  then show ?case by (simp add: ext_refl)
next
  case (MwNext k)
  from MwNext.prems obtain r s1 where n: "nxt s = Some (r, s1)" and
    rest: "run_mw (k r) nxt s1 = Some (out, s')"
    by (auto split: option.splits)
  from n assms have "ext len s s1" by (auto simp: nxt_ok_def)
  moreover have "ext len s1 s'" using MwNext.IH rest by blast
  ultimately show ?case by (rule ext_trans)
qed

lemma catch_err_mid:
  assumes "catch_err E nxt err sx = Some (r, s')"
  shows "\<exists>mid tr. nxt mid = Some (r, s') \<and> handlerResponse mid \<noteq> None \<and>
           index mid = index sx \<and> trace mid = trace sx @ tr \<and> calls tr = []"
proof -
  obtain res tr' where g: "getResForError (e_ser E) (e_onErrorHandlers E) err (trace sx) = (res, tr')"
    by (cases "getResForError (e_ser E) (e_onErrorHandlers E) err (trace sx)")
  with getResForError_trace [of "e_ser E" "e_onErrorHandlers E" err "trace sx"]
  obtain tr where tr: "tr' = trace sx @ tr" "calls tr = []" by auto
  let ?mid = "sx\<lparr>handlerResponse := Some res, trace := tr'\<rparr>"
  have "nxt ?mid = Some (r, s')" using assms g by (simp add: catch_err_def)
  with tr show ?thesis by (intro exI [of _ ?mid] exI [of _ tr]) simp
qed

lemma catch_err_ok:
  assumes "nxt_ok len nxt" "catch_err E nxt err s = Some (r, s')"
  shows "ext len s s'"
proof -
  from catch_err_mid [OF assms(2)] obtain mid tr where
    m: "nxt mid = Some (r, s')" "handlerResponse mid \<noteq> None" "index mid = index s"
       "trace mid = trace s @ tr" "calls tr = []" by blast
  have "ext len s mid" using m by (intro ext_same_index [where tr = tr]) auto
  moreover have "ext len mid s'" using assms(1) m(1) by (auto simp: nxt_ok_def)
  ultimately show ?thesis by (rule ext_trans)
qed

lemma catch_err_after_handler:
  assumes "nxt_ok len nxt" "catch_err E nxt err sx = Some (r, s')"
    and "len \<le> index s" "handlerResponse s = None"
    and "index sx = index s" "trace sx = trace s @ trh" "calls trh = [EvHandler]"
  shows "ext len s s'"
proof -
  from catch_err_mid [OF assms(2)] obtain mid tr where
    m: "nxt mid = Some (r, s')" "handlerResponse mid \<noteq> None" "index mid = index sx"
       "trace mid = trace sx @ tr" "calls tr = []" by blast
  have "ext len s mid"
    using m assms(3-7) by (intro ext_handler [where tr = "trh @ tr"]) (auto simp: calls_append)
  moreover have "ext len mid s'" using assms(1) m(1) by (auto simp: nxt_ok_def)
  ultimately show ?thesis by (rule ext_trans)
qed

lemma call_handler_ok:
  assumes ok: "nxt_ok len nxt" and len: "len \<le> index s"
    and c: "call_handler E nxt s = Some (r, s')"
  shows "ext len s s'"
proof (cases "handlerResponse s")
  case (Some r0)
  with c show ?thesis by (simp add: call_handler_def ext_refl)
next
  case None
  show ?thesis
  proof (cases "runValidation (c_query (cx s)) (validateQuery (e_route E))")
    case (Inl err)
    with None c have "catch_err E nxt err s = Some (r, s')" by (simp add: call_handler_def)
    then show ?thesis by (rule catch_err_ok [OF ok])
  next
    case (Inr q)
    let ?s1 = "s\<lparr>cx := (cx s)\<lparr>c_query := q\<rparr>\<rparr>"
    have e1: "ext len s ?s1" by (intro ext_same_index [where tr = "[]"]) (simp_all add: calls_def)
    show ?thesis
    proof (cases "runValidation (c_params (cx ?s1)) (validateParams (e_route E))")
      case (Inl err)
      with None Inr c have "catch_err E nxt err ?s1 = Some (r, s')"
        by (simp add: call_handler_def Let_def)
      then have "ext len ?s1 s'" by (rule catch_err_ok [OF ok])
      with e1 show ?thesis by (rule ext_trans)
    next
      case p: (Inr p)
      let ?s2 = "?s1\<lparr>cx := (cx ?s1)\<lparr>c_params := p\<rparr>\<rparr>"
      let ?s3 = "?s2\<lparr>trace := trace ?s2 @ [EvHandler]\<rparr>"
      have s3: "index ?s3 = index s" "trace ?s3 = trace s @ [EvHandler]" "calls [EvHandler] = [EvHandler]"
        by (simp_all add: calls_def)
      show ?thesis
      proof (cases "r_handler (e_route E) (cx ?s3)")
        case (Throws err)
        with None Inr p c have "catch_err E nxt err ?s3 = Some (r, s')"
          by (simp add: call_handler_def Let_def)
        then show ?thesis
          using len None
          by (rule catch_err_after_handler [OF ok, where trh = "[EvHandler]"]) (simp_all add: calls_def)
      next
        case (Returns res0)
        show ?thesis
        proof (cases "as_gen (await res0)")
          case g: (Some g)
          obtain x tr' where hs: "handleStream (e_ser E) (e_onErrorHandlers E) g (trace ?s3) = (x, tr')"
            by (cases "handleStream (e_ser E) (e_onErrorHandlers E) g (trace ?s3)")
          with handleStream_trace [of "e_ser E" "e_onErrorHandlers E" g "trace ?s3"]
          obtain tr where tr: "tr' = trace ?s3 @ tr" "calls tr = []" by auto
          show ?thesis
          proof (cases x)
            case (Inl err)
            with None Inr p Returns g hs c have "catch_err E nxt err (?s3\<lparr>trace := tr'\<rparr>) = Some (r, s')"
              by (simp add: call_handler_def Let_def)
            then show ?thesis
              using len None
              by (rule catch_err_after_handler [OF ok, where trh = "[EvHandler] @ tr"])
                 (use tr in \<open>simp_all add: calls_append calls_def\<close>)
          next
            case (Inr r1)
            with None \<open>runValidation (c_query (cx s)) (validateQuery (e_route E)) = Inr q\<close> p Returns g hs c
            have "s' = ?s3\<lparr>handlerResponse := Some r1, trace := tr'\<rparr>"
              by (auto simp: call_handler_def Let_def)
            then show ?thesis
              by (intro ext_handler [where tr = "[EvHandler] @ tr"])
                 (use tr len None in \<open>simp_all add: calls_append calls_def\<close>)
          qed
        next
          case ng: None
          show ?thesis
          proof (cases "turnHandlerResultIntoResponse (e_ser E) (await res0) (e_route E)")
            case (Inl err)
            with None Inr p Returns ng c have "catch_err E nxt err ?s3 = Some (r, s')"
              by (simp add: call_handler_def Let_def)
            then show ?thesis
              using len None
              by (rule catch_err_after_handler [OF ok, where trh = "[EvHandler]"]) (simp_all add: calls_def)
          next
            case (Inr r1)
            with None \<open>runValidation (c_query (cx s)) (validateQuery (e_route E)) = Inr q\<close> p Returns ng c
            have "s' = ?s3\<lparr>handlerResponse := Some r1\<rparr>"
              by (auto simp: call_handler_def Let_def)
            then show ?thesis
              by (intro ext_handler [where tr = "[EvHandler]"])
                 (use len None in \<open>simp_all add: calls_def\<close>)
          qed
        qed
      qed
    qed
  qed
qed

lemma after_middleware_ok:
  assumes ok: "nxt_ok (length (e_middlewares E)) nxt"
    and run: "after_middleware E nxt out s2 = Some (r, s')"
  shows "ext (length (e_middlewares E)) s2 s'"
proof (cases out)
  case (Throws err)
  with run have "catch_err E nxt err s2 = Some (r, s')" by (simp add: after_middleware_def)
  then show ?thesis by (rule catch_err_ok [OF ok])
next
  case (Returns result0)
  let ?len = "length (e_middlewares E)"
  let ?result = "await result0"
  let ?s3 = "case as_response ?result of Some r \<Rightarrow> s2\<lparr>handlerResponse := Some r\<rparr> | None \<Rightarrow> s2"
  have e3: "ext ?len s2 ?s3"
    by (intro ext_same_index [where tr = "[]"]) (auto simp: calls_def split: option.splits)
  from run Returns have body:
    "(if \<not> truthy ?result \<and> index ?s3 < ?len then nxt ?s3
      else if truthy ?result then
        (case turnHandlerResultIntoResponse (e_ser E) ?result (e_route E) of
           Inl err \<Rightarrow> catch_err E nxt err ?s3
         | Inr r \<Rightarrow> Some (r, ?s3))
      else call_handler E nxt ?s3) = Some (r, s')"
    by (simp add: after_middleware_def Let_def)
  have "ext ?len ?s3 s'"
  proof (cases "\<not> truthy ?result \<and> index ?s3 < ?len")
    case True
    with body have "nxt ?s3 = Some (r, s')" by simp
    with ok show ?thesis by (auto simp: nxt_ok_def)
  next
    case nc: False
    show ?thesis
    proof (cases "truthy ?result")
      case t: True
      show ?thesis
      proof (cases "turnHandlerResultIntoResponse (e_ser E) ?result (e_route E)")
        case (Inl err)
        with body nc t have "catch_err E nxt err ?s3 = Some (r, s')" by simp
        then show ?thesis by (rule catch_err_ok [OF ok])
      next
        case (Inr r1)
        with body nc t have "s' = ?s3" by simp
        then show ?thesis by (simp add: ext_refl)
      qed
    next
      case f: False
      with body nc have "call_handler E nxt ?s3 = Some (r, s')" by simp
      moreover have "?len \<le> index ?s3" using nc f by simp
      ultimately show ?thesis by (intro call_handler_ok [OF ok])
    qed
  qed
  with e3 show ?thesis by (rule ext_trans)
qed

lemma next_fuel_ok: "nxt_ok (length (e_middlewares E)) (next_fuel n E)"
proof (induction n)
  case 0
  show ?case by (simp add: nxt_ok_def)
next
  case (Suc n)
  let ?len = "length (e_middlewares E)"
  let ?nxt = "next_fuel n E"
  note ok = Suc.IH
  show ?case unfolding nxt_ok_def
  proof (intro allI impI)
    fix s r s'
    assume run: "next_fuel (Suc n) E s = Some (r, s')"
    show "ext ?len s s'"
    proof (cases "index s < ?len")
      case False
      with run have "call_handler E ?nxt s = Some (r, s')" by simp
      then show ?thesis using False by (intro call_handler_ok [OF ok]) auto
    next
      case True
      let ?s1 = "s\<lparr>index := index s + 1, trace := trace s @ [EvMiddleware (index s)]\<rparr>"
      have e1: "ext ?len s ?s1"
        unfolding ext_def using True by (auto simp: calls_def)
      obtain out s2 where m: "run_mw ((e_middlewares E ! index s) (cx ?s1)) ?nxt ?s1 = Some (out, s2)"
        using run True by (auto simp: Let_def split: option.splits)
      have e2: "ext ?len ?s1 s2" using run_mw_ok [OF ok m] .
      from run True m have "after_middleware E ?nxt out s2 = Some (r, s')"
        by (simp add: Let_def)
      then have "ext ?len s2 s'" by (rule after_middleware_ok [OF ok])
      with e1 e2 show ?thesis by (blast intro: ext_trans)
    qed
  qed
qed

lemma stored_returns:
  assumes "length (e_middlewares E) \<le> index s" "handlerResponse s = Some r"
  shows "next_fuel (Suc n) E s = Some (r, s)"
  using assms by (simp add: call_handler_def)

lemma catch_err_total:
  assumes "\<And>mid :: chain. index mid = index s \<Longrightarrow> handlerResponse mid \<noteq> None \<Longrightarrow> nxt mid \<noteq> None"
  shows "catch_err E nxt err s \<noteq> None"
  using assms by (simp add: catch_err_def split_def Let_def)

lemma call_handler_total:
  assumes "\<And>mid :: chain. index mid = index s \<Longrightarrow> handlerResponse mid \<noteq> None \<Longrightarrow> nxt mid \<noteq> None"
  shows "call_handler E nxt s \<noteq> None"
proof -
  have c: "\<And>err sx. index sx = index s \<Longrightarrow> catch_err E nxt err sx \<noteq> None"
    by (rule catch_err_total) (simp add: assms)
  show ?thesis
    unfolding call_handler_def Let_def using c
    by (auto split: option.splits sum.splits outcome.splits prod.splits)
qed

lemma run_mw_total:
  assumes "nxt_ok len nxt" and "\<And>s''. i \<le> index s'' \<Longrightarrow> nxt s'' \<noteq> None"
  shows "i \<le> index s \<Longrightarrow> run_mw t nxt s \<noteq> None"
proof (induction t arbitrary: s)
  case (MwNext k)
  from assms(2) [OF MwNext.prems] obtain r s1 where n: "nxt s = Some (r, s1)" by auto
  with assms(1) have "ext len s s1" by (auto simp: nxt_ok_def)
  then have "i \<le> index s1" using MwNext.prems by (simp add: ext_def)
  then have "run_mw (k r) nxt s1 \<noteq> None" by (intro MwNext.IH) auto
  with n show ?case by simp
qed simp_all

lemma next_fuel_returns:
  "length (e_middlewares E) - index s + 2 \<le> n \<Longrightarrow> next_fuel n E s \<noteq> None"
proof (induction n arbitrary: s)
  case 0
  then show ?case by simp
next
  case (Suc n)
  let ?len = "length (e_middlewares E)"
  let ?nxt = "next_fuel n E"
  note ok = next_fuel_ok [of E n]
  show ?case
  proof (cases "index s < ?len")
    case False
    from Suc.prems obtain m where m: "n = Suc m" by (cases n) auto
    have "call_handler E ?nxt s \<noteq> None"
    proof (rule call_handler_total)
      fix mid :: chain assume "index mid = index s" "handlerResponse mid \<noteq> None"
      then show "?nxt mid \<noteq> None"
        using False stored_returns [of E mid _ m] m by auto
    qed
    with False show ?thesis by simp
  next
    case True
    have tot: "\<And>s'' :: chain. index s + 1 \<le> index s'' \<Longrightarrow> ?nxt s'' \<noteq> None"
      using Suc.prems True by (intro Suc.IH) auto
    let ?s1 = "s\<lparr>index := index s + 1, trace := trace s @ [EvMiddleware (index s)]\<rparr>"
    have "run_mw ((e_middlewares E ! index s) (cx ?s1)) ?nxt ?s1 \<noteq> None"
    proof (rule run_mw_total [OF ok, where i = "index s + 1"])
      fix s'' :: chain
      assume "index s + 1 \<le> index s''"
      then show "?nxt s'' \<noteq> None" by (rule tot)
    next
      show "index s + 1 \<le> index ?s1" by simp
    qed
    then obtain out s2 where m: "run_mw ((e_middlewares E ! index s) (cx ?s1)) ?nxt ?s1 = Some (out, s2)"
      by auto
    have "ext ?len ?s1 s2" using run_mw_ok [OF ok m] .
    then have i2: "index s + 1 \<le> index s2" by (simp add: ext_def)
    have c: "\<And>err sx. index sx = index s2 \<Longrightarrow> catch_err E ?nxt err sx \<noteq> None"
      using i2 by (intro catch_err_total tot) simp
    have h: "\<And>sx. index sx = index s2 \<Longrightarrow> call_handler E ?nxt sx \<noteq> None"
      using i2 by (intro call_handler_total tot) simp
    have n: "\<And>sx. index sx = index s2 \<Longrightarrow> ?nxt sx \<noteq> None"
      using i2 by (intro tot) simp
    have "after_middleware E ?nxt out s2 \<noteq> None"
      unfolding after_middleware_def Let_def using c h n
      by (auto split: outcome.splits option.splits sum.splits)
    with True m show ?thesis by (simp add: Let_def)
  qed
qed

lemma bfsFind_queue_invariant:
  assumes closed: "\<And>a. a \<in> A \<Longrightarrow> set (childrenApps a) \<subseteq> A"
  shows "(\<And>s a. a \<in> A \<Longrightarrow> I s \<Longrightarrow>
            I (snd (onNode s a)) \<and> (\<forall>r. fst (onNode s a) = Some r \<longrightarrow> Q r)) \<Longrightarrow>
         set queue \<subseteq> A \<Longrightarrow> I s \<Longrightarrow>
         I (snd (bfsFind_queue onNode s queue)) \<and>
         (\<forall>r. fst (bfsFind_queue onNode s queue) = Some r \<longrightarrow> Q r)"
proof (induction onNode s queue rule: bfsFind_queue.induct)
  case (1 onNode s)
  then show ?case by simp
next
  case (2 onNode s node queue)
  have n: "node \<in> A" using "2.prems"(2) by simp
  obtain res s' where o: "onNode s node = (res, s')" by (cases "onNode s node")
  from "2.prems"(1) [OF n "2.prems"(3)] o have st: "I s'" "\<forall>r. res = Some r \<longrightarrow> Q r" by auto
  show ?case
  proof (cases res)
    case None
    have "set (queue @ childrenApps node) \<subseteq> A"
      using "2.prems"(2) closed [OF n] by auto
    from "2.IH" [OF o [symmetric] None "2.prems"(1) this st(1)] o None show ?thesis
      by simp
  next
    case (Some r)
    with o st show ?thesis by simp
  qed
qed

lemma match_onNode_invariant:
  assumes d: "distinct (map app_id (bfs root))" and a: "a \<in> set (nodes root)"
    and f: "\<forall>x. foundApp = Some x \<longrightarrow> x \<in> set (nodes root)"
  shows "(\<forall>x. snd (match_onNode root meth path foundApp a) = Some x \<longrightarrow> x \<in> set (nodes root)) \<and>
         (\<forall>r. fst (match_onNode root meth path foundApp a) = Some r \<longrightarrow>
            (\<exists>mr. r = Some mr \<and> m_app mr \<in> set (nodes root)))"
proof -
  from a have "a \<in> set (bfs root)" by (simp add: set_bfs)
  from getAppsInScope_char [OF d this] obtain path where
    "getAppAndParents root (Some a) = Some path" by blast
  then obtain pre where "joined_prefix root a = Some pre" by (simp add: joined_prefix_def)
  then show ?thesis
    using a f by (auto simp: match_onNode_def Let_def split: option.splits)
qed

lemma match_total:
  assumes d: "distinct (map app_id (bfs root))"
  shows "\<exists>route. match root meth path = Some route \<and> m_app route \<in> set (bfs root)"
proof -
  let ?p = "str_or (strip_slash path) ''/''"
  let ?I = "\<lambda>foundApp. \<forall>x. foundApp = Some x \<longrightarrow> x \<in> set (nodes root)"
  let ?Q = "\<lambda>r. \<exists>mr. r = Some mr \<and> m_app mr \<in> set (nodes root)"
  have inv: "?I (snd (bfsFind_queue (match_onNode root meth ?p) None [root])) \<and>
        (\<forall>r. fst (bfsFind_queue (match_onNode root meth ?p) None [root]) = Some r \<longrightarrow> ?Q r)"
  proof (rule bfsFind_queue_invariant [where A = "set (nodes root)" and I = ?I and Q = ?Q])
    fix a assume "a \<in> set (nodes root)"
    then show "set (childrenApps a) \<subseteq> set (nodes root)"
      using nodes_trans [of a root] nodes_child [of _ a] nodes_self by blast
  next
    fix s a assume "a \<in> set (nodes root)" "?I s"
    then show "?I (snd (match_onNode root meth ?p s a)) \<and>
               (\<forall>r. fst (match_onNode root meth ?p s a) = Some r \<longrightarrow> ?Q r)"
      using match_onNode_invariant [OF d, of a s meth ?p] by blast
  next
    show "set [root] \<subseteq> set (nodes root)" by (simp add: nodes_self)
    show "?I None" by simp
  qed
  obtain res fa where b: "bfsFind_queue (match_onNode root meth ?p) None [root] = (res, fa)"
    by (cases "bfsFind_queue (match_onNode root meth ?p) None [root]")
  with inv have "?I fa" "\<forall>r. res = Some r \<longrightarrow> ?Q r" by simp_all
  then show ?thesis
    using b nodes_self [of root]
    by (cases res; cases fa) (auto simp: match_def bfsFind_def Let_def set_bfs simp del: bfsFind_queue.simps)
qed

lemma length_concat_filter:
  "length (concat (map f (filter P xs))) \<le> length (concat (map f xs))"
  by (induction xs) auto







lemma falsy_not_response: "\<not> truthy v \<Longrightarrow> as_response v = None"
  by (cases v) simp_all






lemma next_fuel_Suc:
  "next_fuel (Suc n) E s =
     (if index s < length (e_middlewares E) then
        (let middleware = e_middlewares E ! index s;
             s1 = s\<lparr>index := index s + 1, trace := trace s @ [EvMiddleware (index s)]\<rparr>
         in case run_mw (middleware (cx s1)) (next_fuel n E) s1 of
              None \<Rightarrow> None
            | Some (out, s2) \<Rightarrow> after_middleware E (next_fuel n E) out s2)
      else call_handler E (next_fuel n E) s)"
  by simp

declare next_fuel.simps(2) [simp del]

lemma catch_err_stored:
  assumes "length (e_middlewares E) \<le> index s" "catch_err E (next_fuel n E) err s = Some x"
  shows "catch_err E (next_fuel (Suc m) E) err s = Some x"
proof -
  obtain res tr' where g: "getResForError (e_ser E) (e_onErrorHandlers E) err (trace s) = (res, tr')"
    by (cases "getResForError (e_ser E) (e_onErrorHandlers E) err (trace s)")
  let ?mid = "s\<lparr>handlerResponse := Some res, trace := tr'\<rparr>"
  from assms(2) g have n: "next_fuel n E ?mid = Some x" by (simp add: catch_err_def)
  then obtain n' where "n = Suc n'" by (cases n) auto
  with n assms(1) have "x = (res, ?mid)" by (auto simp: call_handler_def next_fuel_Suc)
  with g assms(1) show ?thesis by (simp add: catch_err_def call_handler_def next_fuel_Suc)
qed

lemma call_handler_stored:
  assumes "length (e_middlewares E) \<le> index s" "call_handler E (next_fuel n E) s = Some x"
  shows "call_handler E (next_fuel (Suc m) E) s = Some x"
  using assms(2) unfolding call_handler_def Let_def
  by (auto split: option.splits sum.splits outcome.splits prod.splits
           intro!: catch_err_stored [where n = n] simp: assms(1))

lemma catch_err_result:
  assumes "length (e_middlewares E) \<le> index s" "catch_err E (next_fuel n E) err s = Some (r, s')"
  shows "handlerResponse s' = Some r \<and> index s' = index s"
proof -
  obtain res tr' where g: "getResForError (e_ser E) (e_onErrorHandlers E) err (trace s) = (res, tr')"
    by (cases "getResForError (e_ser E) (e_onErrorHandlers E) err (trace s)")
  let ?mid = "s\<lparr>handlerResponse := Some res, trace := tr'\<rparr>"
  from assms(2) g have n: "next_fuel n E ?mid = Some (r, s')" by (simp add: catch_err_def)
  then obtain n' where "n = Suc n'" by (cases n) auto
  with n assms(1) have "(r, s') = (res, ?mid)" by (auto simp: call_handler_def next_fuel_Suc)
  then show ?thesis by simp
qed

lemma call_handler_result:
  assumes "length (e_middlewares E) \<le> index s" "call_handler E (next_fuel n E) s = Some (r, s')"
  shows "handlerResponse s' = Some r \<and> index s' = index s"
  using assms(2) unfolding call_handler_def Let_def
  by (auto split: option.splits sum.splits outcome.splits prod.splits
           dest!: catch_err_result [where n = n, rotated] simp: assms(1))

lemma run_quiet_stored:
  assumes "length (e_middlewares E) \<le> index s" "handlerResponse s = Some R"
  shows "quiet t (Some R) \<Longrightarrow> run_mw t (next_fuel (Suc m) E) s = Some (out, s2) \<Longrightarrow>
         s2 = s \<and> (\<exists>v. out = Returns v \<and> (\<not> truthy (await v) \<or> await v = JResponse R))"
proof (induction t)
  case (MwReturn v)
  then show ?case by auto
next
  case (MwThrow e)
  then show ?case by simp
next
  case (MwNext k)
  have "next_fuel (Suc m) E s = Some (R, s)"
    using assms by (rule stored_returns)
  with MwNext.prems have "run_mw (k R) (next_fuel (Suc m) E) s = Some (out, s2)"
    and "quiet (k R) (Some R)" by simp_all
  then show ?case using MwNext.IH [of "k R"] by blast
qed

lemma after_quiet_stored:
  assumes "length (e_middlewares E) \<le> index s" "handlerResponse s = Some R"
    and "\<not> truthy (await v) \<or> await v = JResponse R"
  shows "after_middleware E (next_fuel (Suc m) E) (Returns v) s = Some (R, s)"
  using assms(3)
proof
  assume "\<not> truthy (await v)"
  then show ?thesis
    using assms(1,2) by (simp add: after_middleware_def Let_def falsy_not_response call_handler_def)
next
  assume "await v = JResponse R"
  then show ?thesis
    using assms(1,2)
    by (simp add: after_middleware_def Let_def turnHandlerResultIntoResponse_def)
qed

lemma quiet_run:
  assumes q: "\<forall>m \<in> set (e_middlewares E). quiet (m c0) None"
  shows "index s \<le> length (e_middlewares E) \<Longrightarrow> handlerResponse s = None \<Longrightarrow> cx s = c0 \<Longrightarrow>
         next_fuel n E s = Some (r, s') \<Longrightarrow>
         call_handler E (next_fuel (Suc 0) E)
           (s\<lparr>index := length (e_middlewares E),
              trace := trace s @ map EvMiddleware [index s ..< length (e_middlewares E)]\<rparr>)
         = Some (r, s')"
proof (induction n arbitrary: s r s')
  case 0
  then show ?case by simp
next
  case (Suc n)
  let ?len = "length (e_middlewares E)"
  let ?nxt = "next_fuel n E"
  let ?end = "\<lambda>s. s\<lparr>index := ?len, trace := trace s @ map EvMiddleware [index s ..< ?len]\<rparr>"
  show ?case
  proof (cases "index s < ?len")
    case False
    with Suc.prems have i: "index s = ?len" and c: "call_handler E ?nxt s = Some (r, s')"
      by (simp_all add: next_fuel_Suc)
    have "?end s = s" using i by simp
    moreover have "call_handler E (next_fuel (Suc 0) E) s = Some (r, s')"
      using i c by (intro call_handler_stored [where n = n]) simp_all
    ultimately show ?thesis by simp
  next
    case True
    let ?s1 = "s\<lparr>index := index s + 1, trace := trace s @ [EvMiddleware (index s)]\<rparr>"
    let ?t = "(e_middlewares E ! index s) c0"
    have s1: "index ?s1 \<le> ?len" "handlerResponse ?s1 = None" "cx ?s1 = c0"
      using True Suc.prems by simp_all
    have e1: "?end ?s1 = ?end s"
      using True by (simp add: upt_conv_Cons)
    have qt: "quiet ?t None" using q True by simp
    obtain out s2 where m: "run_mw ?t ?nxt ?s1 = Some (out, s2)"
      and a: "after_middleware E ?nxt out s2 = Some (r, s')"
      using Suc.prems(3,4) True by (auto simp: next_fuel_Suc Let_def split: option.splits)
    show ?thesis
    proof (cases ?t)
      case (MwThrow e)
      with qt show ?thesis by simp
    next
      case (MwReturn v)
      with qt have f: "\<not> truthy (await v)" by simp
      from m MwReturn have o: "out = Returns v" "s2 = ?s1" by simp_all
      show ?thesis
      proof (cases "index ?s1 < ?len")
        case True
        with a o f have "?nxt ?s1 = Some (r, s')"
          by (simp add: after_middleware_def Let_def falsy_not_response)
        from Suc.IH [OF s1 this] e1 show ?thesis by simp
      next
        case False
        with a o f have c: "call_handler E ?nxt ?s1 = Some (r, s')"
          by (simp add: after_middleware_def Let_def falsy_not_response)
        from False s1(1) have i: "index ?s1 = ?len" by simp
        then have "?end ?s1 = ?s1" by simp
        moreover have "call_handler E (next_fuel (Suc 0) E) ?s1 = Some (r, s')"
          using i c by (intro call_handler_stored [where n = n]) simp_all
        ultimately show ?thesis using e1 by simp
      qed
    next
      case (MwNext k)
      with m obtain r1 s'' where n1: "?nxt ?s1 = Some (r1, s'')"
        and rest: "run_mw (k r1) ?nxt s'' = Some (out, s2)"
        by (auto split: option.splits)
      from n1 obtain n' where n': "n = Suc n'" by (cases n) auto
      from Suc.IH [OF s1 n1] e1
      have c: "call_handler E (next_fuel (Suc 0) E) (?end s) = Some (r1, s'')" by simp
      from call_handler_result [OF _ c]
      have st: "handlerResponse s'' = Some r1" "?len \<le> index s''" by simp_all
      from qt MwNext have "quiet (k r1) (Some r1)" by simp
      from run_quiet_stored [OF st(2,1) this rest [unfolded n']]
      obtain v where o: "s2 = s''" "out = Returns v" "\<not> truthy (await v) \<or> await v = JResponse r1"
        by blast
      from after_quiet_stored [OF st(2,1) o(3), of n'] a o(1,2) n'
      have "(r, s') = (r1, s'')" by simp
      with c show ?thesis by simp
    qed
  qed
qed

lemma handle_quiet:
  assumes m: "match this (req_method req) (pathname req @ search req) = Some route"
    and g: "getAppsInScope this (Some (m_app route)) = Some scope"
    and q: "\<forall>m \<in> set (concat (map middlewares scope)). quiet (m (cx (initial_chain req route st))) None"
    and f: "length (concat (map middlewares scope)) + 2 \<le> fuel"
  shows "\<exists>r s'. handle fuel ser this req st = Some (r, trace s') \<and>
           call_handler (handle_env ser scope route) (next_fuel (Suc 0) (handle_env ser scope route))
             ((initial_chain req route st)
                \<lparr>index := length (concat (map middlewares scope)),
                 trace := map EvMiddleware [0 ..< length (concat (map middlewares scope))]\<rparr>)
           = Some (r, s')"
proof -
  let ?E = "handle_env ser scope route"
  let ?s0 = "initial_chain req route st"
  have mw: "e_middlewares ?E = concat (map middlewares scope)"
    by (simp add: handle_env_def)
  have s0: "index ?s0 = 0" "handlerResponse ?s0 = None" "trace ?s0 = []"
    by (simp_all add: initial_chain_def)
  have "length (e_middlewares ?E) - index ?s0 + 2 \<le> fuel"
    using f unfolding mw s0 by simp
  then have "next_fuel fuel ?E ?s0 \<noteq> None" by (rule next_fuel_returns)
  then obtain r s' where n: "next_fuel fuel ?E ?s0 = Some (r, s')" by auto
  have "call_handler ?E (next_fuel (Suc 0) ?E)
          (?s0\<lparr>index := length (e_middlewares ?E),
               trace := trace ?s0 @ map EvMiddleware [index ?s0 ..< length (e_middlewares ?E)]\<rparr>)
        = Some (r, s')"
  proof (rule quiet_run [where ?c0.0 = "cx ?s0"])
    show "\<forall>m \<in> set (e_middlewares ?E). quiet (m (cx ?s0)) None" using q unfolding mw .
    show "index ?s0 \<le> length (e_middlewares ?E)" unfolding s0 by simp
    show "handlerResponse ?s0 = None" by (rule s0)
    show "cx ?s0 = cx ?s0" by (rule refl)
    show "next_fuel fuel ?E ?s0 = Some (r, s')" by (rule n)
  qed
  then have "call_handler ?E (next_fuel (Suc 0) ?E)
          (?s0\<lparr>index := length (concat (map middlewares scope)),
               trace := map EvMiddleware [0 ..< length (concat (map middlewares scope))]\<rparr>)
        = Some (r, s')"
    unfolding mw s0 by simp
  moreover have "handle fuel ser this req st = Some (r, trace s')"
    using m g n by (simp add: handle_def)
  ultimately show ?thesis by blast
qed

lemma bfsFind_queue_none:
  "(\<And>a f. a \<in> set (bfs_list q) \<Longrightarrow> fst (onNode f a) = None) \<Longrightarrow>
   fst (bfsFind_queue onNode s q) = None"
proof (induction onNode s q rule: bfsFind_queue.induct)
  case (1 onNode s)
  show ?case by simp
next
  case (2 onNode s node queue)
  obtain res s' where o: "onNode s node = (res, s')" by (cases "onNode s node")
  from "2.prems" [of node s] o have res: "res = None" by simp
  have "fst (bfsFind_queue onNode s' (queue @ childrenApps node)) = None"
    using "2.prems" by (intro "2.IH" [OF o [symmetric] res]) simp
  with o res show ?case by simp
qed

lemma match_not_found:
  assumes "\<And>a f. a \<in> set (bfs this) \<Longrightarrow>
             fst (match_onNode this meth (str_or (strip_slash path) ''/'') f a) = None"
    and "match this meth path = Some route"
  shows "m_route route = synthesized_route notFoundHandler meth (str_or (strip_slash path) ''/'')"
proof -
  let ?p = "str_or (strip_slash path) ''/''"
  have "fst (bfsFind_queue (match_onNode this meth ?p) None [this]) = None"
    using assms(1) by (intro bfsFind_queue_none) (simp add: bfs_bfs_list)
  then show ?thesis
    using assms(2)
    by (cases "bfsFind_queue (match_onNode this meth ?p) None [this]")
       (auto simp: match_def bfsFind_def Let_def simp del: bfsFind_queue.simps)
qed

lemma call_handler_not_found:
  assumes "e_route E = synthesized_route notFoundHandler meth path" "handlerResponse s = None"
  shows "call_handler E nxt s =
           Some (new_Response (BText ''Not Found'') 404 [],
                 s\<lparr>cx := (cx s)\<lparr>c_query := c_query (cx s), c_params := c_params (cx s)\<rparr>,
                    trace := trace s @ [EvHandler],
                    handlerResponse := Some (new_Response (BText ''Not Found'') 404 [])\<rparr>)"
  using assms
  by (simp add: call_handler_def synthesized_route_def runValidation_def notFoundHandler_def
        turnHandlerResultIntoResponse_def Let_def)

text \<open>
  C4, as the code has it. In a tree with distinct ids, when no node of the tree yields a
  route for the method and path of the request (nor a \<open>GET\<close> route for a \<open>HEAD\<close>
  request), and every middleware collected for the request lets the response through (it
  returns nothing, or the response its \<open>next()\<close> gave, and does not throw), \<open>handle\<close>
  returns the response with status 404 and body \<open>Not Found\<close>; the route handler that
  makes it is called once, no error handler is called and nothing is logged.
\<close>

theorem not_found_404:
  assumes "distinct (map app_id (bfs this))"
    and "\<forall>a \<in> set (bfs this). \<forall>f.
           fst (match_onNode this (req_method req)
                  (str_or (strip_slash (pathname req @ search req)) ''/'') f a) = None"
    and "\<forall>route scope.
           match this (req_method req) (pathname req @ search req) = Some route \<longrightarrow>
           getAppsInScope this (Some (m_app route)) = Some scope \<longrightarrow>
           (\<forall>m \<in> set (concat (map middlewares scope)).
              quiet (m (cx (initial_chain req route st))) None)"
    and "length (concat (map middlewares (bfs this))) + 2 \<le> fuel"
  shows "\<exists>tr. handle fuel ser this req st =
                Some (new_Response (BText ''Not Found'') 404 [], tr) \<and>
              (\<forall>i. EvOnError i \<notin> set tr) \<and> (\<forall>e. EvLog e \<notin> set tr) \<and>
              count_list tr EvHandler = 1"
proof -
  from match_total [OF assms(1)] obtain route where
    m: "match this (req_method req) (pathname req @ search req) = Some route"
       "m_app route \<in> set (bfs this)" by blast
  from getAppsInScope_char [OF assms(1) m(2)] obtain path scope where
    sc: "getAppsInScope this (Some (m_app route)) = Some scope"
        "scope = filter (\<lambda>a. a \<in> set path \<or> scoped a = Some False) (bfs this)" by blast
  let ?E = "handle_env ser scope route"
  let ?len = "length (concat (map middlewares scope))"
  let ?r = "new_Response (BText ''Not Found'') 404 []"
  have "?len \<le> length (concat (map middlewares (bfs this)))"
    unfolding sc(2) by (simp add: length_concat_filter del: length_concat)
  with assms(4) have f: "?len + 2 \<le> fuel" by simp
  have q: "\<forall>m \<in> set (concat (map middlewares scope)). quiet (m (cx (initial_chain req route st))) None"
    using assms(3) m(1) sc(1) by blast
  have nf: "e_route ?E = synthesized_route notFoundHandler (req_method req)
              (str_or (strip_slash (pathname req @ search req)) ''/'')"
    using match_not_found [OF _ m(1)] assms(2) by (simp add: handle_env_def)
  from handle_quiet [OF m(1) sc(1) q f, of ser] obtain r s' where
    h: "handle fuel ser this req st = Some (r, trace s')"
    and c: "call_handler ?E (next_fuel (Suc 0) ?E)
             ((initial_chain req route st)\<lparr>index := ?len, trace := map EvMiddleware [0 ..< ?len]\<rparr>)
           = Some (r, s')" by blast
  from c have "r = ?r" and "trace s' = map EvMiddleware [0 ..< ?len] @ [EvHandler]"
    by (auto simp: call_handler_not_found [OF nf] initial_chain_def)
  with h show ?thesis by (auto simp: count_list_append count_list_0_iff)
qed

theorem not_found_404_witness:
  "distinct (map app_id (bfs wrapped_app)) \<and>
   fst (match_onNode wrapped_app ''GET'' ''/non-existent'' None wrapped_app) = None \<and>
   quiet (return_next (cx (initial_chain get_missing (the (match wrapped_app ''GET'' ''/non-existent'')) None))) None \<and>
   length (concat (map middlewares (bfs wrapped_app))) + 2 \<le> 3 \<and>
   response_of (handle 3 demo_ser wrapped_app get_missing None) =
     Some (new_Response (BText ''Not Found'') 404 []) \<and>
   EvOnError 0 \<notin> set (events_of (handle 3 demo_ser wrapped_app get_missing None))"
proof -
  have b: "bfs wrapped_app = [wrapped_app]"
    by (simp add: bfs_def wrapped_app_def)
  have ch: "childrenApps wrapped_app = []" by (simp add: wrapped_app_def)
  have d: "distinct (map app_id (bfs wrapped_app))" by (simp add: b)
  have p: "str_or (strip_slash (pathname get_missing @ search get_missing)) ''/'' = ''/non-existent''"
    by (simp add: get_missing_def strip_slash_def str_or_def)
  have nm: "\<And>f. fst (match_onNode wrapped_app ''GET'' ''/non-existent'' f wrapped_app) = None"
    by (simp add: match_onNode_def joined_prefix_def getAppAndParents_def ch prefix_str_def
          strip_slash_def)
       (simp add: wrapped_app_def router_of_def)
  have n: "\<forall>a \<in> set (bfs wrapped_app). \<forall>f.
           fst (match_onNode wrapped_app (req_method get_missing)
                  (str_or (strip_slash (pathname get_missing @ search get_missing)) ''/'') f a) = None"
    unfolding p b using nm by (simp add: get_missing_def)
  have mw: "middlewares wrapped_app = [return_next]" by (simp add: wrapped_app_def)
  have qn: "\<And>c. quiet (return_next c) None" by (simp add: return_next_def)
  have q: "\<forall>route scope.
           match wrapped_app (req_method get_missing) (pathname get_missing @ search get_missing) = Some route \<longrightarrow>
           getAppsInScope wrapped_app (Some (m_app route)) = Some scope \<longrightarrow>
           (\<forall>m \<in> set (concat (map middlewares scope)).
              quiet (m (cx (initial_chain get_missing route None))) None)"
    using qn by (auto simp: getAppsInScope_def ch mw)
  have f: "length (concat (map middlewares (bfs wrapped_app))) + 2 \<le> 3"
    by (simp add: b mw)
  from not_found_404 [OF d n q f, of demo_ser] obtain tr where
    "handle 3 demo_ser wrapped_app get_missing None =
       Some (new_Response (BText ''Not Found'') 404 [], tr)" "\<forall>i. EvOnError i \<notin> set tr"
    by blast
  then have "response_of (handle 3 demo_ser wrapped_app get_missing None) =
       Some (new_Response (BText ''Not Found'') 404 [])"
    "EvOnError 0 \<notin> set (events_of (handle 3 demo_ser wrapped_app get_missing None))"
    by (simp_all add: response_of_def events_of_def)
  with d nm [of None] qn f show ?thesis by simp
qed

text \<open>
  C4 as stated fails: for a path that no route has, a middleware that answers by itself
  decides the response, here status 200 and body \<open>ok\<close>.
\<close>

theorem not_found_overridden_counterexample:
  "Option.is_none (router short_circuit_app ''/non-existent'') \<and>
   map_option (r_path \<circ> m_route) (match short_circuit_app ''GET'' ''/non-existent'') = Some ''/non-existent'' \<and>
   response_of (handle 3 demo_ser short_circuit_app get_missing None) = Some ok_response \<and>
   status ok_response = 200 \<and> rbody ok_response = BText ''ok''"
  by code_simp

lemma isResponse_as_response: "isResponse v \<longleftrightarrow> as_response v \<noteq> None"
  by (cases v) simp_all










section \<open>Properties of matching\<close>











section \<open>Properties of the request state\<close>












end
